theory Spec2Isabelle
  imports Main "HOL-Library.Word"
begin

section \<open>The detokenizer worker of \<open>vllm/v1/tokenizer/detokenizer.py\<close>\<close>

text \<open>
  The worker keeps one \<open>RequestState\<close> per live request id in the dictionary
  \<open>self.requests\<close>, receives batches (\<open>DetokenizerInputs\<close>) on a pull socket and
  answers each with one \<open>DetokenizerOutputs\<close> frame on a push socket.

  Python values are modelled by value: token ids are unbounded \<open>int\<close>s, \<open>str\<close> is
  \<open>string\<close>, a \<open>List\<close> is a list, the dictionary is a map. The source mutates the
  \<open>RequestState\<close> object in place; every such object is created by \<open>add_request\<close>
  and stored under exactly one key, and the list it takes over as \<open>token_ids\<close>
  (\<open>inputs.prompt_token_ids[i]\<close>) is never read again by \<open>run\<close>, so no mutation is
  visible through a second reference and explicit state passing is exact.

  An exception is a value \<open>Inl e\<close>. Nothing in the file catches an exception, so a raise
  ends \<open>run\<close> (and with it the process): the state is not returned in that case.
\<close>

subsection \<open>Data\<close>

type_synonym bytes = "8 word list"

datatype error =
    KeyError string
  | IndexError
  | DecodeError string
  | TokenizerError string
  | Again

text \<open>
  \<open>KeyError k\<close>: \<open>self.requests[k]\<close> or \<open>del self.requests[k]\<close> with \<open>k\<close> absent (the
  spec's \<open>UnknownRequest\<close>). \<open>IndexError\<close>: a list read past its end.
  \<open>DecodeError\<close>: raised by \<open>msgpack_decoder.decode\<close> (the spec's
  \<open>ProtocolDecodeError\<close>). \<open>TokenizerError\<close>: raised inside one of the two tokenizer
  helpers. \<open>Again\<close>: \<open>zmq.Again\<close> from the non-blocking send.
\<close>

text \<open>
  \<open>class DetokenizerInputs(msgspec.Struct)\<close>. The two flag arrays carry the prefix
  \<open>in_\<close> because \<open>RequestState\<close> has fields of the same names.
\<close>

record DetokenizerInputs =
  req_ids :: "string list"
  prompt_token_ids :: "int list list"
  new_token_ids :: "int list list"
  in_skip_special_tokens :: "bool list"
  in_spaces_between_special_tokens :: "bool list"
  free_req_ids :: "string list"

text \<open>\<open>class DetokenizerOutputs(msgspec.Struct)\<close>; its \<open>req_ids\<close> is \<open>out_req_ids\<close> here.\<close>

record DetokenizerOutputs =
  out_req_ids :: "string list"
  detokenized_texts :: "string list"
  num_output_token_ids :: "int list"

text \<open>\<open>@dataclass class RequestState\<close>; \<open>num_prompt_tokens\<close> is a \<open>len\<close>, hence a \<open>nat\<close>.\<close>

record RequestState =
  req_id :: string
  token_ids :: "int list"
  tokens :: "string list"
  num_prompt_tokens :: nat
  prefix_offset :: int
  read_offset :: int
  skip_special_tokens :: bool
  spaces_between_special_tokens :: bool
  output_text :: string

type_synonym registry = "string \<rightharpoonup> RequestState"

text \<open>
  The two helpers imported from \<open>vllm.transformers_utils.detokenizer_utils\<close>, applied
  to \<open>self.tokenizer\<close>, are not part of this file: they are parameters. Each returns its
  result tuple, or \<open>Inl msg\<close> where it raises.
\<close>

record tokenizer =
  convert_prompt_ids_to_tokens ::
    "int list \<Rightarrow> bool \<Rightarrow> string + (string list \<times> int \<times> int)"
  detokenize_incrementally ::
    "int list \<Rightarrow> string list \<Rightarrow> int \<Rightarrow> int \<Rightarrow> bool \<Rightarrow> bool
       \<Rightarrow> string + (string list \<times> string \<times> int \<times> int)"

text \<open>
  \<open>msgpack.Decoder(DetokenizerInputs)\<close> and \<open>msgpack.Encoder()\<close> of the msgspec
  library, parameters as well.
\<close>

record codec =
  decode :: "bytes \<Rightarrow> string + DetokenizerInputs"
  encode :: "DetokenizerOutputs \<Rightarrow> bytes"

subsection \<open>The registry: \<open>add_request\<close>, \<open>free\<close>\<close>

definition add_request ::
  "tokenizer \<Rightarrow> registry \<Rightarrow> string \<Rightarrow> int list \<Rightarrow> bool \<Rightarrow> bool \<Rightarrow> error + registry" where
  "add_request tok requests request_id prompt_ids skip spaces =
     (case convert_prompt_ids_to_tokens tok prompt_ids skip of
        Inl msg \<Rightarrow> Inl (TokenizerError msg)
      | Inr (toks, p_off, r_off) \<Rightarrow>
          Inr (requests(request_id \<mapsto>
                 \<lparr>req_id = request_id,
                  token_ids = prompt_ids,
                  tokens = toks,
                  num_prompt_tokens = length prompt_ids,
                  prefix_offset = p_off,
                  read_offset = r_off,
                  skip_special_tokens = skip,
                  spaces_between_special_tokens = spaces,
                  output_text = ''''\<rparr>)))"

definition free :: "registry \<Rightarrow> string \<Rightarrow> error + registry" where
  "free requests request_id =
     (case requests request_id of
        None \<Rightarrow> Inl (KeyError request_id)
      | Some _ \<Rightarrow> Inr (requests(request_id := None)))"

subsection \<open>The incremental decoder: \<open>detokenize\<close>\<close>

text \<open>
  The \<open>for new_token_id in new_token_ids\<close> loop of \<open>detokenize\<close>, on the state object
  and the local \<open>decoded_text\<close>.
\<close>

fun detokenize_loop ::
  "tokenizer \<Rightarrow> RequestState \<Rightarrow> string \<Rightarrow> int list \<Rightarrow> error + (string \<times> RequestState)" where
  "detokenize_loop tok req_state decoded_text [] = Inr (decoded_text, req_state)"
| "detokenize_loop tok req_state decoded_text (new_token_id # rest) =
     (let st = req_state\<lparr>token_ids := token_ids req_state @ [new_token_id]\<rparr> in
      case detokenize_incrementally tok (token_ids st) (tokens st)
             (prefix_offset st) (read_offset st)
             (skip_special_tokens st) (spaces_between_special_tokens st) of
        Inl msg \<Rightarrow> Inl (TokenizerError msg)
      | Inr (new_tokens, new_decoded_token_text, p_off, r_off) \<Rightarrow>
          detokenize_loop tok
            (st\<lparr>tokens := tokens st @ new_tokens,
                prefix_offset := p_off,
                read_offset := r_off,
                output_text := output_text st @ new_decoded_token_text\<rparr>)
            (decoded_text @ new_decoded_token_text) rest)"

definition detokenize ::
  "tokenizer \<Rightarrow> registry \<Rightarrow> string \<Rightarrow> int list \<Rightarrow> error + (string \<times> registry)" where
  "detokenize tok requests request_id new_ids =
     (case requests request_id of
        None \<Rightarrow> Inl (KeyError request_id)
      | Some req_state \<Rightarrow>
          (case detokenize_loop tok req_state '''' new_ids of
             Inl e \<Rightarrow> Inl e
           | Inr (decoded_text, req_state') \<Rightarrow>
               Inr (decoded_text, requests(request_id \<mapsto> req_state'))))"

subsection \<open>The worker loop: \<open>run\<close>\<close>

text \<open>\<open>xs[i]\<close> for \<open>i \<ge> 0\<close>: Python raises \<open>IndexError\<close> past the end.\<close>

definition getitem :: "'a list \<Rightarrow> nat \<Rightarrow> error + 'a" where
  "getitem xs i = (if i < length xs then Inr (xs ! i) else Inl IndexError)"

text \<open>\<open>for req_id in inputs.free_req_ids: self.free(req_id)\<close>.\<close>

fun free_loop :: "registry \<Rightarrow> string list \<Rightarrow> error + registry" where
  "free_loop requests [] = Inr requests"
| "free_loop requests (r # rs) =
     (case free requests r of
        Inl e \<Rightarrow> Inl e
      | Inr requests' \<Rightarrow> free_loop requests' rs)"

text \<open>
  \<open>if req_id not in self.requests: self.add_request(...)\<close>. The three arguments read
  from the batch are evaluated, in this order, only when the id is absent.
\<close>

definition register_if_new ::
  "tokenizer \<Rightarrow> DetokenizerInputs \<Rightarrow> registry \<Rightarrow> nat \<Rightarrow> string \<Rightarrow> error + registry" where
  "register_if_new tok inputs requests i rid =
     (case requests rid of
        Some _ \<Rightarrow> Inr requests
      | None \<Rightarrow>
          (case getitem (prompt_token_ids inputs) i of
             Inl e \<Rightarrow> Inl e
           | Inr prompt \<Rightarrow>
          (case getitem (in_skip_special_tokens inputs) i of
             Inl e \<Rightarrow> Inl e
           | Inr skip \<Rightarrow>
          (case getitem (in_spaces_between_special_tokens inputs) i of
             Inl e \<Rightarrow> Inl e
           | Inr spaces \<Rightarrow> add_request tok requests rid prompt skip spaces))))"

text \<open>
  One iteration of \<open>for i in range(num_reqs)\<close>, on the registry and the two result
  lists \<open>detokenized_texts\<close> and \<open>num_output_token_ids\<close>.
\<close>

definition index_step ::
  "tokenizer \<Rightarrow> DetokenizerInputs \<Rightarrow> registry \<times> string list \<times> int list \<Rightarrow> nat
     \<Rightarrow> error + (registry \<times> string list \<times> int list)" where
  "index_step tok inputs acc i =
     (case acc of (requests, texts, nums) \<Rightarrow>
      (case getitem (req_ids inputs) i of
         Inl e \<Rightarrow> Inl e
       | Inr rid \<Rightarrow>
      (case register_if_new tok inputs requests i rid of
         Inl e \<Rightarrow> Inl e
       | Inr requests1 \<Rightarrow>
      (case getitem (new_token_ids inputs) i of
         Inl e \<Rightarrow> Inl e
       | Inr new_ids \<Rightarrow>
      (case detokenize tok requests1 rid new_ids of
         Inl e \<Rightarrow> Inl e
       | Inr (new_str, requests2) \<Rightarrow>
      (case requests2 rid of
         None \<Rightarrow> Inl (KeyError rid)
       | Some req_state \<Rightarrow>
           Inr (requests2, texts @ [new_str],
                nums @ [int (length (token_ids req_state))
                         - int (num_prompt_tokens req_state)])))))))"

fun index_loop ::
  "tokenizer \<Rightarrow> DetokenizerInputs \<Rightarrow> registry \<times> string list \<times> int list \<Rightarrow> nat list
     \<Rightarrow> error + (registry \<times> string list \<times> int list)" where
  "index_loop tok inputs acc [] = Inr acc"
| "index_loop tok inputs acc (i # rest) =
     (case index_step tok inputs acc i of
        Inl e \<Rightarrow> Inl e
      | Inr acc' \<Rightarrow> index_loop tok inputs acc' rest)"

text \<open>
  The body of \<open>while True\<close> from the decoded \<open>inputs\<close> to the \<open>DetokenizerOutputs\<close>
  object: the evictions, then the indices \<open>range(num_reqs)\<close>.
\<close>

definition process_batch ::
  "tokenizer \<Rightarrow> registry \<Rightarrow> DetokenizerInputs \<Rightarrow> error + (registry \<times> DetokenizerOutputs)" where
  "process_batch tok requests inputs =
     (case free_loop requests (free_req_ids inputs) of
        Inl e \<Rightarrow> Inl e
      | Inr requests1 \<Rightarrow>
          (case index_loop tok inputs (requests1, [], []) [0 ..< length (req_ids inputs)] of
             Inl e \<Rightarrow> Inl e
           | Inr (requests2, texts, nums) \<Rightarrow>
               Inr (requests2,
                    \<lparr>out_req_ids = req_ids inputs,
                     detokenized_texts = texts,
                     num_output_token_ids = nums\<rparr>)))"

text \<open>
  How \<open>run\<close> ends. \<open>Terminated\<close>: the \<open>break\<close> on the empty message. \<open>Blocked\<close>:
  \<open>recv\<close> waits for a message that has not come. \<open>Raised e\<close>: an exception left
  \<open>run\<close>.
\<close>

datatype outcome = Terminated registry | Blocked registry | Raised error

text \<open>
  \<open>run\<close> against its environment: the messages that \<open>pull_socket.recv()\<close> delivers,
  each with a flag telling whether the push socket accepts a frame at that moment
  (\<open>send\<close> with \<open>zmq.NOBLOCK\<close> raises \<open>zmq.Again\<close> otherwise). The result is the list
  of frames sent, in order, and how the loop ended.
\<close>

fun run ::
  "tokenizer \<Rightarrow> codec \<Rightarrow> registry \<Rightarrow> (bytes \<times> bool) list \<Rightarrow> bytes list \<times> outcome" where
  "run tok cdc requests [] = ([], Blocked requests)"
| "run tok cdc requests ((message, push_ready) # rest) =
     (if message = [] then ([], Terminated requests)
      else
        (case decode cdc message of
           Inl msg \<Rightarrow> ([], Raised (DecodeError msg))
         | Inr inputs \<Rightarrow>
             (case process_batch tok requests inputs of
                Inl e \<Rightarrow> ([], Raised e)
              | Inr (requests', detokenized) \<Rightarrow>
                  if push_ready
                  then (case run tok cdc requests' rest of
                          (sent, out) \<Rightarrow> (encode cdc detokenized # sent, out))
                  else ([], Raised Again))))"

subsection \<open>A fixed tokenizer for concrete instances\<close>

text \<open>
  A small tokenizer over the vocabulary \<open>1 \<mapsto> a\<close>, \<open>2 \<mapsto> b\<close>, \<open>3 \<mapsto> c\<close>: every id
  decodes to one token, the text of a token is the token, an id outside the vocabulary
  makes the helper raise.
\<close>

definition vocab :: "int \<Rightarrow> string option" where
  "vocab i = (if i = 1 then Some ''a'' else if i = 2 then Some ''b''
              else if i = 3 then Some ''c'' else None)"

definition fake_tokenizer :: tokenizer where
  "fake_tokenizer =
     \<lparr>convert_prompt_ids_to_tokens =
        (\<lambda>ids skip. if list_all (\<lambda>i. vocab i \<noteq> None) ids
                     then Inr (map (\<lambda>i. the (vocab i)) ids, 0, int (length ids))
                     else Inl ''unknown id''),
      detokenize_incrementally =
        (\<lambda>all_ids prev p_off r_off skip spaces.
           if all_ids = [] then Inl ''no ids''
           else (case vocab (last all_ids) of
                   None \<Rightarrow> Inl ''unknown id''
                 | Some t \<Rightarrow> Inr ([t], t, r_off, r_off + 1)))\<rparr>"

definition state0 :: RequestState where
  "state0 = \<lparr>req_id = ''r1'', token_ids = [1, 2], tokens = [''a'', ''b''],
             num_prompt_tokens = 2, prefix_offset = 0, read_offset = 2,
             skip_special_tokens = True, spaces_between_special_tokens = True,
             output_text = ''''\<rparr>"

subsection \<open>Sequences of calls\<close>

text \<open>
  \<open>detokenize\<close> called on the same request once per list of \<open>calls\<close>, each call on
  the registry the previous one left; the result is the list of strings the calls
  returned, in call order.
\<close>

fun detokenize_calls ::
  "tokenizer \<Rightarrow> registry \<Rightarrow> string \<Rightarrow> int list list \<Rightarrow> error + (string list \<times> registry)" where
  "detokenize_calls tok requests r [] = Inr ([], requests)"
| "detokenize_calls tok requests r (ids # calls) =
     (case detokenize tok requests r ids of
        Inl e \<Rightarrow> Inl e
      | Inr (txt, requests1) \<Rightarrow>
          (case detokenize_calls tok requests1 r calls of
             Inl e \<Rightarrow> Inl e
           | Inr (txts, requests2) \<Rightarrow> Inr (txt # txts, requests2)))"

text \<open>
  The spec's reference semantics of the consistency law: the new ids decoded one at a
  time, one call per id, and the results concatenated.
\<close>

definition detokenize_one_at_a_time ::
  "tokenizer \<Rightarrow> registry \<Rightarrow> string \<Rightarrow> int list \<Rightarrow> error + (string \<times> registry)" where
  "detokenize_one_at_a_time tok requests r ids =
     (case detokenize_calls tok requests r (map (\<lambda>i. [i]) ids) of
        Inl e \<Rightarrow> Inl e
      | Inr (txts, requests') \<Rightarrow> Inr (concat txts, requests'))"

subsection \<open>Operations on the registry, with the calls made so far\<close>

text \<open>
  The three operations the worker performs on \<open>self.requests\<close>, as a trace:
  \<open>Register\<close> is \<open>add_request\<close>, \<open>Advance\<close> is \<open>detokenize\<close>, \<open>Evict\<close> is \<open>free\<close>.
  Beside the registry the trace keeps, for every request id, the \<open>detokenize\<close> calls
  made on its current state object since that object was created: the new ids passed
  and the string returned. The record of calls is not part of the program; it is what
  the properties of \<open>output_text\<close> and of the token count speak about.
\<close>

datatype operation =
    Register string "int list" bool bool
  | Advance string "int list"
  | Evict string

type_synonym history = "string \<Rightarrow> (int list \<times> string) list"

fun apply_operation ::
  "tokenizer \<Rightarrow> registry \<times> history \<Rightarrow> operation \<Rightarrow> error + (registry \<times> history)" where
  "apply_operation tok (requests, hist) (Register r prompt skip spaces) =
     (case add_request tok requests r prompt skip spaces of
        Inl e \<Rightarrow> Inl e
      | Inr requests' \<Rightarrow> Inr (requests', hist(r := [])))"
| "apply_operation tok (requests, hist) (Advance r ids) =
     (case detokenize tok requests r ids of
        Inl e \<Rightarrow> Inl e
      | Inr (txt, requests') \<Rightarrow> Inr (requests', hist(r := hist r @ [(ids, txt)])))"
| "apply_operation tok (requests, hist) (Evict r) =
     (case free requests r of
        Inl e \<Rightarrow> Inl e
      | Inr requests' \<Rightarrow> Inr (requests', hist(r := [])))"

fun apply_operations ::
  "tokenizer \<Rightarrow> registry \<times> history \<Rightarrow> operation list \<Rightarrow> error + (registry \<times> history)" where
  "apply_operations tok s [] = Inr s"
| "apply_operations tok s (x # xs) =
     (case apply_operation tok s x of
        Inl e \<Rightarrow> Inl e
      | Inr s' \<Rightarrow> apply_operations tok s' xs)"

subsection \<open>A sample trace\<close>

text \<open>
  Request \<open>r1\<close> registered with the prompt \<open>[1, 2]\<close> (which gives \<open>state0\<close>), then
  advanced by \<open>[3]\<close> and by \<open>[1, 2]\<close>; \<open>state1\<close> and \<open>history1\<close> are the state and the
  record of calls after that.
\<close>

definition trace1 :: "operation list" where
  "trace1 = [Register ''r1'' [1, 2] True True, Advance ''r1'' [3], Advance ''r1'' [1, 2]]"

definition state1 :: RequestState where
  "state1 = \<lparr>req_id = ''r1'', token_ids = [1, 2, 3, 1, 2],
             tokens = [''a'', ''b'', ''c'', ''a'', ''b''],
             num_prompt_tokens = 2, prefix_offset = 4, read_offset = 5,
             skip_special_tokens = True, spaces_between_special_tokens = True,
             output_text = ''cab''\<rparr>"

definition history1 :: history where
  "history1 = (\<lambda>_. [])(''r1'' := [([3], ''c''), ([1, 2], ''ab'')])"

text \<open>A batch that advances \<open>r1\<close> by \<open>[3, 3]\<close> and frees nothing.\<close>

definition inputs1 :: DetokenizerInputs where
  "inputs1 = \<lparr>req_ids = [''r1''], prompt_token_ids = [[]], new_token_ids = [[3, 3]],
              in_skip_special_tokens = [True], in_spaces_between_special_tokens = [True],
              free_req_ids = []\<rparr>"

definition state2 :: RequestState where
  "state2 = \<lparr>req_id = ''r1'', token_ids = [1, 2, 3, 1, 2, 3, 3],
             tokens = [''a'', ''b'', ''c'', ''a'', ''b'', ''c'', ''c''],
             num_prompt_tokens = 2, prefix_offset = 6, read_offset = 7,
             skip_special_tokens = True, spaces_between_special_tokens = True,
             output_text = ''cabcc''\<rparr>"

text \<open>
  A batch of two: \<open>r2\<close>, new, with the prompt \<open>[3]\<close>, advanced by \<open>[1]\<close>; then the
  live \<open>r1\<close>, advanced by \<open>[3]\<close>. \<open>registry2\<close> and \<open>outputs2\<close> are the registry and
  the response after it, from the registry that holds \<open>state1\<close>.
\<close>

definition inputs2 :: DetokenizerInputs where
  "inputs2 = \<lparr>req_ids = [''r2'', ''r1''], prompt_token_ids = [[3], []],
              new_token_ids = [[1], [3]],
              in_skip_special_tokens = [False, True],
              in_spaces_between_special_tokens = [True, True],
              free_req_ids = []\<rparr>"

definition registry2 :: registry where
  "registry2 =
     [''r2'' \<mapsto>
        \<lparr>req_id = ''r2'', token_ids = [3, 1], tokens = [''c'', ''a''],
         num_prompt_tokens = 1, prefix_offset = 1, read_offset = 2,
         skip_special_tokens = False, spaces_between_special_tokens = True,
         output_text = ''a''\<rparr>,
      ''r1'' \<mapsto>
        \<lparr>req_id = ''r1'', token_ids = [1, 2, 3, 1, 2, 3],
         tokens = [''a'', ''b'', ''c'', ''a'', ''b'', ''c''],
         num_prompt_tokens = 2, prefix_offset = 5, read_offset = 6,
         skip_special_tokens = True, spaces_between_special_tokens = True,
         output_text = ''cabc''\<rparr>]"

definition outputs2 :: DetokenizerOutputs where
  "outputs2 = \<lparr>out_req_ids = [''r2'', ''r1''], detokenized_texts = [''a'', ''c''],
               num_output_token_ids = [1, 4]\<rparr>"

text \<open>
  Two batches whose arrays do not have matching lengths. In \<open>inputs6\<close> the live \<open>r1\<close>
  is the only request, \<open>prompt_token_ids\<close> and \<open>skip_special_tokens\<close> are empty,
  \<open>new_token_ids\<close> has two entries and \<open>spaces_between_special_tokens\<close> three;
  \<open>state6\<close> and \<open>outputs6\<close> are the state of \<open>r1\<close> and the response after it. In
  \<open>inputs7\<close> there are two requests and one entry of \<open>new_token_ids\<close>.
\<close>

definition inputs6 :: DetokenizerInputs where
  "inputs6 = \<lparr>req_ids = [''r1''], prompt_token_ids = [], new_token_ids = [[3], [1]],
              in_skip_special_tokens = [],
              in_spaces_between_special_tokens = [True, False, True],
              free_req_ids = []\<rparr>"



definition inputs7 :: DetokenizerInputs where
  "inputs7 = \<lparr>req_ids = [''r1'', ''r2''], prompt_token_ids = [[], [3]],
              new_token_ids = [[3]],
              in_skip_special_tokens = [True, True],
              in_spaces_between_special_tokens = [True, True],
              free_req_ids = []\<rparr>"

subsection \<open>A sample codec\<close>

text \<open>
  The empty batch and its response, and a stand-in for the msgpack coder: the one-byte
  messages \<open>0\<close>, \<open>1\<close>, \<open>2\<close>, \<open>6\<close>, \<open>7\<close> decode to the sample batches of these numbers, every other message
  is malformed; a response is encoded as its number of entries followed by the lengths
  of its texts.
\<close>

definition inputs0 :: DetokenizerInputs where
  "inputs0 = \<lparr>req_ids = [], prompt_token_ids = [], new_token_ids = [],
              in_skip_special_tokens = [], in_spaces_between_special_tokens = [],
              free_req_ids = []\<rparr>"

definition outputs0 :: DetokenizerOutputs where
  "outputs0 = \<lparr>out_req_ids = [], detokenized_texts = [], num_output_token_ids = []\<rparr>"

definition fake_codec :: codec where
  "fake_codec =
     \<lparr>decode = (\<lambda>message.
         if message = [0] then Inr inputs0
         else if message = [1] then Inr inputs1
         else if message = [2] then Inr inputs2
         else if message = [6] then Inr inputs6
         else if message = [7] then Inr inputs7
         else Inl ''malformed''),
      encode = (\<lambda>out. of_nat (length (out_req_ids out))
                       # map (\<lambda>t. of_nat (length t)) (detokenized_texts out))\<rparr>"

text \<open>
  A batch that frees \<open>r1\<close> and names it again, with the prompt \<open>[3]\<close> and the new ids
  \<open>[1]\<close>; \<open>state3\<close> and \<open>outputs3\<close> are the state of \<open>r1\<close> and the response after it.
\<close>

definition inputs3 :: DetokenizerInputs where
  "inputs3 = \<lparr>req_ids = [''r1''], prompt_token_ids = [[3]], new_token_ids = [[1]],
              in_skip_special_tokens = [False], in_spaces_between_special_tokens = [True],
              free_req_ids = [''r1'']\<rparr>"

definition state3 :: RequestState where
  "state3 = \<lparr>req_id = ''r1'', token_ids = [3, 1], tokens = [''c'', ''a''],
             num_prompt_tokens = 1, prefix_offset = 1, read_offset = 2,
             skip_special_tokens = False, spaces_between_special_tokens = True,
             output_text = ''a''\<rparr>"

definition outputs3 :: DetokenizerOutputs where
  "outputs3 = \<lparr>out_req_ids = [''r1''], detokenized_texts = [''a''],
               num_output_token_ids = [1]\<rparr>"





subsection \<open>A batch cut to its number of requests\<close>


subsection \<open>Counting the ids a batch adds\<close>

text \<open>
  \<open>ids_added_before inputs r i\<close> is the number of new ids that the indices below \<open>i\<close>
  of the batch pass for the request \<open>r\<close>; \<open>output_count requests r\<close> is the length of
  the \<open>token_ids\<close> of \<open>r\<close> beyond its \<open>num_prompt_tokens\<close>, and zero for an absent id.
  Neither is part of the program: they state what \<open>num_output_token_ids\<close> reports.
\<close>

definition ids_added_before :: "DetokenizerInputs \<Rightarrow> string \<Rightarrow> nat \<Rightarrow> nat" where
  "ids_added_before inputs r i =
     sum_list (map (\<lambda>j. if req_ids inputs ! j = r then length (new_token_ids inputs ! j) else 0)
                   [0 ..< i])"

definition output_count :: "registry \<Rightarrow> string \<Rightarrow> int" where
  "output_count requests r =
     (case requests r of
        None \<Rightarrow> 0
      | Some st \<Rightarrow> int (length (token_ids st)) - int (num_prompt_tokens st))"

text \<open>
  A batch that names the new request \<open>r2\<close> twice: registered with the prompt \<open>[3]\<close>
  and advanced by \<open>[1]\<close>, then advanced by \<open>[2, 3]\<close>; \<open>state8\<close> and \<open>outputs8\<close> are
  the state of \<open>r2\<close> and the response after it.
\<close>

definition inputs8 :: DetokenizerInputs where
  "inputs8 = \<lparr>req_ids = [''r2'', ''r2''], prompt_token_ids = [[3], []],
              new_token_ids = [[1], [2, 3]],
              in_skip_special_tokens = [True, True],
              in_spaces_between_special_tokens = [True, True],
              free_req_ids = []\<rparr>"

definition state8 :: RequestState where
  "state8 = \<lparr>req_id = ''r2'', token_ids = [3, 1, 2, 3],
             tokens = [''c'', ''a'', ''b'', ''c''],
             num_prompt_tokens = 1, prefix_offset = 3, read_offset = 4,
             skip_special_tokens = True, spaces_between_special_tokens = True,
             output_text = ''abc''\<rparr>"

definition outputs8 :: DetokenizerOutputs where
  "outputs8 = \<lparr>out_req_ids = [''r2'', ''r2''], detokenized_texts = [''a'', ''bc''],
               num_output_token_ids = [1, 3]\<rparr>"

subsection \<open>The processing of a batch in the spec's words\<close>

text \<open>
  The spec describes the processing of a batch as: apply all \<open>free_req_ids\<close>
  evictions, then for each request index in order: register-if-new, then advance. The
  three definitions below follow these words, to be compared with \<open>process_batch\<close>.
  \<open>register_then_advance\<close> is one index: the registration step, then \<open>detokenize\<close>
  on the registry it returns, giving the text and the token count of the request.
\<close>

definition register_then_advance ::
  "tokenizer \<Rightarrow> DetokenizerInputs \<Rightarrow> registry \<Rightarrow> nat \<Rightarrow> error + (registry \<times> string \<times> int)" where
  "register_then_advance tok inputs requests i =
     (case getitem (req_ids inputs) i of
        Inl e \<Rightarrow> Inl e
      | Inr rid \<Rightarrow>
     (case register_if_new tok inputs requests i rid of
        Inl e \<Rightarrow> Inl e
      | Inr requests_a \<Rightarrow>
     (case getitem (new_token_ids inputs) i of
        Inl e \<Rightarrow> Inl e
      | Inr new_ids \<Rightarrow>
     (case detokenize tok requests_a rid new_ids of
        Inl e \<Rightarrow> Inl e
      | Inr (new_str, requests_b) \<Rightarrow>
     (case requests_b rid of
        None \<Rightarrow> Inl (KeyError rid)
      | Some req_state \<Rightarrow>
          Inr (requests_b, new_str,
               int (length (token_ids req_state)) - int (num_prompt_tokens req_state)))))))"

text \<open>
  \<open>indices_in_order tok inputs requests i k\<close> handles the \<open>k\<close> indices \<open>i\<close>,
  \<open>i + 1\<close>, ... one after the other, each on the registry the one before it left, and
  returns the texts and counts in that order.
\<close>

fun indices_in_order ::
  "tokenizer \<Rightarrow> DetokenizerInputs \<Rightarrow> registry \<Rightarrow> nat \<Rightarrow> nat
     \<Rightarrow> error + (registry \<times> string list \<times> int list)" where
  "indices_in_order tok inputs requests i 0 = Inr (requests, [], [])"
| "indices_in_order tok inputs requests i (Suc k) =
     (case register_then_advance tok inputs requests i of
        Inl e \<Rightarrow> Inl e
      | Inr (requests_a, new_str, n) \<Rightarrow>
          (case indices_in_order tok inputs requests_a (Suc i) k of
             Inl e \<Rightarrow> Inl e
           | Inr (requests_b, texts, nums) \<Rightarrow> Inr (requests_b, new_str # texts, n # nums)))"

definition evictions_then_indices ::
  "tokenizer \<Rightarrow> registry \<Rightarrow> DetokenizerInputs \<Rightarrow> error + (registry \<times> string list \<times> int list)" where
  "evictions_then_indices tok requests inputs =
     (case free_loop requests (free_req_ids inputs) of
        Inl e \<Rightarrow> Inl e
      | Inr requests_a \<Rightarrow>
          indices_in_order tok inputs requests_a 0 (length (req_ids inputs)))"

section \<open>Properties\<close>

lemma detokenize_Nil:
  "requests request_id = Some st \<Longrightarrow> detokenize tok requests request_id [] = Inr ('''', requests)"
  by (simp add: detokenize_def map_upd_triv)

text \<open>
  C9. Advancing a live request with an empty list of new token ids returns the empty
  string and leaves the registry, hence every field of that request's state
  (\<open>token_ids\<close>, \<open>tokens\<close>, the offsets, \<open>output_text\<close>), as it was.
\<close>

theorem detokenize_empty_is_noop:
  assumes "requests request_id = Some st"
  shows "detokenize tok requests request_id [] = Inr ('''', requests)"
  using assms by (rule detokenize_Nil)

theorem detokenize_empty_is_noop_witness:
  "[''r1'' \<mapsto> state0] ''r1'' = Some state0 \<and>
   detokenize fake_tokenizer [''r1'' \<mapsto> state0] ''r1'' [] = Inr ('''', [''r1'' \<mapsto> state0])"
  using detokenize_empty_is_noop [of "[''r1'' \<mapsto> state0]" "''r1''" state0 fake_tokenizer]
  by simp

subsection \<open>The decode loop\<close>

lemma detokenize_loop_append:
  "detokenize_loop tok st acc (xs @ ys) =
     (case detokenize_loop tok st acc xs of
        Inl e \<Rightarrow> Inl e
      | Inr (acc', st') \<Rightarrow> detokenize_loop tok st' acc' ys)"
  by (induction xs arbitrary: st acc) (auto simp: Let_def split: sum.splits prod.splits)

lemma detokenize_loop_prepend:
  "detokenize_loop tok st (pre @ acc) xs =
     (case detokenize_loop tok st acc xs of
        Inl e \<Rightarrow> Inl e
      | Inr (txt, st') \<Rightarrow> Inr (pre @ txt, st'))"
  by (induction xs arbitrary: st acc) (auto simp: Let_def split: sum.splits prod.splits)

lemma detokenize_loop_acc:
  "detokenize_loop tok st acc xs =
     (case detokenize_loop tok st '''' xs of
        Inl e \<Rightarrow> Inl e
      | Inr (txt, st') \<Rightarrow> Inr (acc @ txt, st'))"
  using detokenize_loop_prepend [of tok st acc "''''" xs] by simp

lemma detokenize_loop_state:
  "detokenize_loop tok st acc xs = Inr (txt, st') \<Longrightarrow>
     token_ids st' = token_ids st @ xs \<and>
     num_prompt_tokens st' = num_prompt_tokens st \<and>
     req_id st' = req_id st \<and>
     skip_special_tokens st' = skip_special_tokens st \<and>
     spaces_between_special_tokens st' = spaces_between_special_tokens st \<and>
     (\<exists>more. tokens st' = tokens st @ more) \<and>
     (\<exists>inc. txt = acc @ inc \<and> output_text st' = output_text st @ inc)"
proof (induction xs arbitrary: st acc)
  case Nil
  then show ?case by auto
next
  case (Cons x xs)
  then show ?case
    by (fastforce simp: Let_def split: sum.splits prod.splits)
qed

lemma detokenize_append:
  "detokenize tok requests r (xs @ ys) =
     (case detokenize tok requests r xs of
        Inl e \<Rightarrow> Inl e
      | Inr (t1, requests1) \<Rightarrow>
          (case detokenize tok requests1 r ys of
             Inl e \<Rightarrow> Inl e
           | Inr (t2, requests2) \<Rightarrow> Inr (t1 @ t2, requests2)))"
proof (cases "requests r")
  case None
  then show ?thesis by (simp add: detokenize_def)
next
  case (Some st)
  show ?thesis
  proof (cases "detokenize_loop tok st [] xs")
    case (Inl e)
    then show ?thesis using Some by (simp add: detokenize_def detokenize_loop_append)
  next
    case (Inr p)
    obtain t1 st1 where p: "p = (t1, st1)" by (cases p)
    have "detokenize_loop tok st1 t1 ys =
            (case detokenize_loop tok st1 [] ys of
               Inl e \<Rightarrow> Inl e | Inr (txt, st') \<Rightarrow> Inr (t1 @ txt, st'))"
      by (rule detokenize_loop_acc)
    then show ?thesis using Some Inr p
      by (auto simp: detokenize_def detokenize_loop_append split: sum.splits prod.splits)
  qed
qed

lemma detokenize_live:
  "detokenize tok requests r ids = Inr (txt, requests') \<Longrightarrow> \<exists>st. requests' r = Some st"
  by (auto simp: detokenize_def split: option.splits sum.splits prod.splits)

lemma detokenize_one_at_a_time_eq:
  "requests r = Some st \<Longrightarrow>
     detokenize tok requests r ids = detokenize_one_at_a_time tok requests r ids"
proof (induction ids arbitrary: requests st)
  case Nil
  then show ?case by (simp add: detokenize_one_at_a_time_def detokenize_Nil)
next
  case (Cons i ids)
  have split: "detokenize tok requests r (i # ids) =
     (case detokenize tok requests r [i] of
        Inl e \<Rightarrow> Inl e
      | Inr (t1, requests1) \<Rightarrow>
          (case detokenize tok requests1 r ids of
             Inl e \<Rightarrow> Inl e
           | Inr (t2, requests2) \<Rightarrow> Inr (t1 @ t2, requests2)))"
    using detokenize_append [of tok requests r "[i]" ids] by simp
  show ?case
  proof (cases "detokenize tok requests r [i]")
    case (Inl e)
    then show ?thesis by (simp add: split detokenize_one_at_a_time_def)
  next
    case (Inr p)
    obtain t1 requests1 where p: "p = (t1, requests1)" by (cases p)
    from Inr p obtain st1 where "requests1 r = Some st1"
      using detokenize_live by blast
    then have "detokenize tok requests1 r ids = detokenize_one_at_a_time tok requests1 r ids"
      by (rule Cons.IH)
    then show ?thesis using Inr p
      by (simp add: split detokenize_one_at_a_time_def split: sum.splits prod.splits)
  qed
qed

text \<open>
  C1. For a live request and token ids \<open>a\<close>, \<open>b\<close>, one call of \<open>detokenize\<close> with
  \<open>[a, b]\<close> gives the same result (the same text and the same final registry, or the
  same exception) as a call with \<open>[a]\<close> followed by a call with \<open>[b]\<close> on the
  resulting registry, the two texts concatenated; and for any list of new ids, one call
  equals decoding the ids one at a time and concatenating.
\<close>

theorem detokenize_incremental_consistency:
  assumes "requests request_id = Some st"
  shows "detokenize tok requests request_id [a, b] =
           (case detokenize tok requests request_id [a] of
              Inl e \<Rightarrow> Inl e
            | Inr (t1, requests1) \<Rightarrow>
                (case detokenize tok requests1 request_id [b] of
                   Inl e \<Rightarrow> Inl e
                 | Inr (t2, requests2) \<Rightarrow> Inr (t1 @ t2, requests2)))
         \<and> detokenize tok requests request_id new_ids =
             detokenize_one_at_a_time tok requests request_id new_ids"
proof -
  have "detokenize tok requests request_id new_ids =
          detokenize_one_at_a_time tok requests request_id new_ids"
    using assms by (rule detokenize_one_at_a_time_eq)
  then show ?thesis
    using detokenize_append [of tok requests request_id "[a]" "[b]"] by simp
qed

theorem detokenize_incremental_consistency_witness:
  "[''r1'' \<mapsto> state0] ''r1'' = Some state0 \<and>
   detokenize fake_tokenizer [''r1'' \<mapsto> state0] ''r1'' [3, 1] =
     Inr (''ca'', [''r1'' \<mapsto> state0\<lparr>token_ids := [1, 2, 3, 1],
                                   tokens := [''a'', ''b'', ''c'', ''a''],
                                   prefix_offset := 3, read_offset := 4,
                                   output_text := ''ca''\<rparr>]) \<and>
   detokenize fake_tokenizer [''r1'' \<mapsto> state0] ''r1'' [3, 1] =
     detokenize_one_at_a_time fake_tokenizer [''r1'' \<mapsto> state0] ''r1'' [3, 1]"
proof -
  have live: "[''r1'' \<mapsto> state0] ''r1'' = Some state0" by simp
  have one: "detokenize fake_tokenizer [''r1'' \<mapsto> state0] ''r1'' [3, 1] =
     Inr (''ca'', [''r1'' \<mapsto> state0\<lparr>token_ids := [1, 2, 3, 1],
                                   tokens := [''a'', ''b'', ''c'', ''a''],
                                   prefix_offset := 3, read_offset := 4,
                                   output_text := ''ca''\<rparr>])"
    by (simp add: detokenize_def state0_def vocab_def fake_tokenizer_def Let_def)
  have two: "detokenize fake_tokenizer [''r1'' \<mapsto> state0] ''r1'' [3, 1] =
     detokenize_one_at_a_time fake_tokenizer [''r1'' \<mapsto> state0] ''r1'' [3, 1]"
    using detokenize_incremental_consistency
            [of "[''r1'' \<mapsto> state0]" "''r1''" state0 fake_tokenizer 3 1 "[3, 1]"] live
    by blast
  from live one two show ?thesis by (intro conjI)
qed

subsection \<open>What the three operations do to the registry\<close>

lemma add_request_result:
  "add_request tok requests r prompt skip spaces = Inr requests' \<Longrightarrow>
     \<exists>st. requests' = requests(r \<mapsto> st) \<and> req_id st = r \<and> token_ids st = prompt \<and>
          num_prompt_tokens st = length prompt \<and> skip_special_tokens st = skip \<and>
          spaces_between_special_tokens st = spaces \<and> output_text st = ''''"
  by (auto simp: add_request_def split: sum.splits prod.splits)

lemma detokenize_result:
  "detokenize tok requests r ids = Inr (txt, requests') \<Longrightarrow>
     \<exists>st st'. requests r = Some st \<and> requests' = requests(r \<mapsto> st') \<and>
       token_ids st' = token_ids st @ ids \<and>
       num_prompt_tokens st' = num_prompt_tokens st \<and>
       req_id st' = req_id st \<and>
       skip_special_tokens st' = skip_special_tokens st \<and>
       spaces_between_special_tokens st' = spaces_between_special_tokens st \<and>
       (\<exists>more. tokens st' = tokens st @ more) \<and>
       output_text st' = output_text st @ txt"
proof -
  assume a: "detokenize tok requests r ids = Inr (txt, requests')"
  then obtain st where st: "requests r = Some st"
    by (auto simp: detokenize_def split: option.splits)
  with a obtain st' where loop: "detokenize_loop tok st [] ids = Inr (txt, st')"
    and r': "requests' = requests(r \<mapsto> st')"
    by (auto simp: detokenize_def split: sum.splits prod.splits)
  from detokenize_loop_state [OF loop] st r' show ?thesis by auto
qed

lemma free_result:
  "free requests r = Inr requests' \<Longrightarrow>
     (\<exists>st. requests r = Some st) \<and> requests' = requests(r := None)"
  by (auto simp: free_def split: option.splits)

lemma apply_operation_text:
  assumes "\<forall>r st. requests r = Some st \<longrightarrow> output_text st = concat (map snd (hist r))"
    and "apply_operation tok (requests, hist) x = Inr (requests', hist')"
  shows "\<forall>r st. requests' r = Some st \<longrightarrow> output_text st = concat (map snd (hist' r))"
proof (cases x)
  case (Register r prompt skip spaces)
  with assms(2) obtain rq where rq: "add_request tok requests r prompt skip spaces = Inr rq"
    and eq: "requests' = rq" "hist' = hist(r := [])"
    by (auto split: sum.splits)
  from add_request_result [OF rq] assms(1) eq show ?thesis by auto
next
  case (Advance r ids)
  with assms(2) obtain new_str rq where rq: "detokenize tok requests r ids = Inr (new_str, rq)"
    and eq: "requests' = rq" "hist' = hist(r := hist r @ [(ids, new_str)])"
    by (auto split: sum.splits prod.splits)
  from detokenize_result [OF rq] assms(1) eq show ?thesis by auto
next
  case (Evict r)
  with assms(2) obtain rq where rq: "free requests r = Inr rq"
    and eq: "requests' = rq" "hist' = hist(r := [])"
    by (auto split: sum.splits)
  from free_result [OF rq] assms(1) eq show ?thesis by auto
qed

lemma apply_operation_count:
  assumes "\<forall>r st. requests r = Some st \<longrightarrow>
             int (length (token_ids st)) - int (num_prompt_tokens st) =
             int (sum_list (map (length \<circ> fst) (hist r)))"
    and "apply_operation tok (requests, hist) x = Inr (requests', hist')"
  shows "\<forall>r st. requests' r = Some st \<longrightarrow>
             int (length (token_ids st)) - int (num_prompt_tokens st) =
             int (sum_list (map (length \<circ> fst) (hist' r)))"
proof (cases x)
  case (Register r prompt skip spaces)
  with assms(2) obtain rq where rq: "add_request tok requests r prompt skip spaces = Inr rq"
    and eq: "requests' = rq" "hist' = hist(r := [])"
    by (auto split: sum.splits)
  from add_request_result [OF rq] assms(1) eq show ?thesis by auto
next
  case (Advance r ids)
  with assms(2) obtain new_str rq where rq: "detokenize tok requests r ids = Inr (new_str, rq)"
    and eq: "requests' = rq" "hist' = hist(r := hist r @ [(ids, new_str)])"
    by (auto split: sum.splits prod.splits)
  from detokenize_result [OF rq] assms(1) eq show ?thesis by fastforce
next
  case (Evict r)
  with assms(2) obtain rq where rq: "free requests r = Inr rq"
    and eq: "requests' = rq" "hist' = hist(r := [])"
    by (auto split: sum.splits)
  from free_result [OF rq] assms(1) eq show ?thesis by auto
qed

text \<open>
  C8. Start from a registry in which the \<open>output_text\<close> of every live request is the
  concatenation, in call order, of the strings its \<open>detokenize\<close> calls returned (as
  in the empty registry, or right after \<open>add_request\<close>, where both are empty). Then
  after any sequence of registrations, \<open>detokenize\<close> calls and evictions that raises
  no exception the same holds again: every operation preserves the invariant.
\<close>

theorem output_text_is_concatenation_of_increments:
  assumes "\<forall>r st. requests r = Some st \<longrightarrow> output_text st = concat (map snd (hist r))"
    and "apply_operations tok (requests, hist) ops = Inr (requests', hist')"
  shows "\<forall>r st. requests' r = Some st \<longrightarrow> output_text st = concat (map snd (hist' r))"
  using assms
proof (induction ops arbitrary: requests hist)
  case Nil
  then show ?case by simp
next
  case (Cons x xs)
  from Cons.prems(2) obtain s1 where s1: "apply_operation tok (requests, hist) x = Inr s1"
    and rest: "apply_operations tok s1 xs = Inr (requests', hist')"
    by (auto split: sum.splits)
  obtain requests1 hist1 where p: "s1 = (requests1, hist1)" by (cases s1)
  have "\<forall>r st. requests1 r = Some st \<longrightarrow> output_text st = concat (map snd (hist1 r))"
    using apply_operation_text [OF Cons.prems(1)] s1 p by blast
  then show ?case using rest p Cons.IH by blast
qed

lemma trace1_result:
  "apply_operations fake_tokenizer (Map.empty, \<lambda>_. []) trace1 =
     Inr ([''r1'' \<mapsto> state1], history1)"
  by (simp add: trace1_def state1_def history1_def add_request_def detokenize_def vocab_def
        fake_tokenizer_def Let_def numeral_2_eq_2)

theorem output_text_is_concatenation_of_increments_witness:
  "apply_operations fake_tokenizer (Map.empty, \<lambda>_. []) trace1 =
     Inr ([''r1'' \<mapsto> state1], history1) \<and>
   output_text state1 = concat (map snd (history1 ''r1'')) \<and>
   output_text state1 = ''cab'' \<and> map snd (history1 ''r1'') = [''c'', ''ab'']"
proof -
  have start: "\<forall>r st. (Map.empty :: registry) r = Some st \<longrightarrow>
       output_text st = concat (map snd (((\<lambda>_. []) :: history) r))"
    by simp
  have vals: "output_text state1 = ''cab''" "map snd (history1 ''r1'') = [''c'', ''ab'']"
    by (simp_all add: state1_def history1_def)
  have "output_text state1 = concat (map snd (history1 ''r1''))"
    using output_text_is_concatenation_of_increments
            [OF start trace1_result, rule_format, of "''r1''" state1]
    by simp
  with trace1_result vals show ?thesis by (intro conjI)
qed

subsection \<open>The token count\<close>

lemma apply_operations_count:
  assumes "\<forall>r st. requests r = Some st \<longrightarrow>
             int (length (token_ids st)) - int (num_prompt_tokens st) =
             int (sum_list (map (length \<circ> fst) (hist r)))"
    and "apply_operations tok (requests, hist) ops = Inr (requests', hist')"
  shows "\<forall>r st. requests' r = Some st \<longrightarrow>
             int (length (token_ids st)) - int (num_prompt_tokens st) =
             int (sum_list (map (length \<circ> fst) (hist' r)))"
  using assms
proof (induction ops arbitrary: requests hist)
  case Nil
  then show ?case by simp
next
  case (Cons x xs)
  from Cons.prems(2) obtain s1 where s1: "apply_operation tok (requests, hist) x = Inr s1"
    and rest: "apply_operations tok s1 xs = Inr (requests', hist')"
    by (auto split: sum.splits)
  obtain requests1 hist1 where p: "s1 = (requests1, hist1)" by (cases s1)
  have "\<forall>r st. requests1 r = Some st \<longrightarrow>
          int (length (token_ids st)) - int (num_prompt_tokens st) =
          int (sum_list (map (length \<circ> fst) (hist1 r)))"
    using apply_operation_count [OF Cons.prems(1)] s1 p by blast
  then show ?case using rest p Cons.IH by blast
qed

lemma getitem_Inr: "getitem xs i = Inr x \<Longrightarrow> i < length xs \<and> x = xs ! i"
  by (auto simp: getitem_def split: if_splits)

lemma register_if_new_result:
  "register_if_new tok inputs requests i rid = Inr requests1 \<Longrightarrow>
     (\<exists>st. requests rid = Some st \<and> requests1 = requests) \<or>
     (requests rid = None \<and>
      i < length (prompt_token_ids inputs) \<and>
      i < length (in_skip_special_tokens inputs) \<and>
      i < length (in_spaces_between_special_tokens inputs) \<and>
      add_request tok requests rid (prompt_token_ids inputs ! i)
        (in_skip_special_tokens inputs ! i)
        (in_spaces_between_special_tokens inputs ! i) = Inr requests1)"
  by (auto simp: register_if_new_def getitem_def split: option.splits sum.splits if_splits)

lemma index_step_result:
  assumes "index_step tok inputs (requests, texts, nums) i = Inr (requests2, texts', nums')"
  shows "i < length (req_ids inputs) \<and> i < length (new_token_ids inputs) \<and>
     (\<exists>requests1 new_str st.
        register_if_new tok inputs requests i (req_ids inputs ! i) = Inr requests1 \<and>
        detokenize tok requests1 (req_ids inputs ! i) (new_token_ids inputs ! i) =
          Inr (new_str, requests2) \<and>
        requests2 (req_ids inputs ! i) = Some st \<and>
        texts' = texts @ [new_str] \<and>
        nums' = nums @ [int (length (token_ids st)) - int (num_prompt_tokens st)])"
  using assms
  by (auto simp: index_step_def getitem_def
           split: option.splits sum.splits prod.splits if_splits)

lemma inputs1_step:
  "index_step fake_tokenizer inputs1 ([''r1'' \<mapsto> state1], [], []) 0 =
     Inr ([''r1'' \<mapsto> state2], [''cc''], [5])"
  by (simp add: index_step_def inputs1_def getitem_def register_if_new_def detokenize_def
        state1_def state2_def vocab_def fake_tokenizer_def Let_def)

subsection \<open>The response of a batch\<close>

lemma index_loop_append:
  "index_loop tok inputs acc (xs @ ys) =
     (case index_loop tok inputs acc xs of
        Inl e \<Rightarrow> Inl e
      | Inr acc' \<Rightarrow> index_loop tok inputs acc' ys)"
  by (induction xs arbitrary: acc) (auto split: sum.splits)

lemma index_loop_extends:
  "index_loop tok inputs (requests, texts, nums) idxs = Inr (requests', texts', nums') \<Longrightarrow>
     \<exists>ts ns. texts' = texts @ ts \<and> nums' = nums @ ns \<and>
             length ts = length idxs \<and> length ns = length idxs"
proof (induction idxs arbitrary: requests texts nums)
  case Nil
  then show ?case by simp
next
  case (Cons i idxs)
  from Cons.prems obtain acc1 where
    step: "index_step tok inputs (requests, texts, nums) i = Inr acc1" and
    rest: "index_loop tok inputs acc1 idxs = Inr (requests', texts', nums')"
    by (auto split: sum.splits)
  obtain requests1 texts1 nums1 where acc1: "acc1 = (requests1, texts1, nums1)"
    by (cases acc1)
  from index_step_result [OF step [unfolded acc1]] obtain new_str n where
    one: "texts1 = texts @ [new_str]" "nums1 = nums @ [n]"
    by blast
  from Cons.IH [OF rest [unfolded acc1]] obtain ts ns where
    "texts' = texts1 @ ts" "nums' = nums1 @ ns" "length ts = length idxs"
    "length ns = length idxs"
    by blast
  with one have "texts' = texts @ (new_str # ts) \<and> nums' = nums @ (n # ns) \<and>
    length (new_str # ts) = length (i # idxs) \<and> length (n # ns) = length (i # idxs)"
    by simp
  then show ?case by blast
qed

lemma process_batch_result:
  assumes "process_batch tok requests inputs = Inr (requests', out)"
  shows "\<exists>requests0 texts nums.
           free_loop requests (free_req_ids inputs) = Inr requests0 \<and>
           index_loop tok inputs (requests0, [], []) [0 ..< length (req_ids inputs)] =
             Inr (requests', texts, nums) \<and>
           out = \<lparr>out_req_ids = req_ids inputs, detokenized_texts = texts,
                  num_output_token_ids = nums\<rparr>"
  using assms by (auto simp: process_batch_def split: sum.splits prod.splits)

text \<open>
  C4. When a batch is processed without an exception, the response carries the batch's
  \<open>req_ids\<close> unchanged, and \<open>detokenized_texts\<close> and \<open>num_output_token_ids\<close> have one
  entry per request index, in index order: entry \<open>i\<close> is the string \<open>detokenize\<close>
  returned for \<open>req_ids[i]\<close> with \<open>new_token_ids[i]\<close>, and that request's token count,
  on the registry that the evictions and the indices before \<open>i\<close> left (their entries
  are the first \<open>i\<close> of the response). This covers batches of any size, the empty one
  included.
\<close>

theorem response_arrays_follow_req_ids_order:
  assumes "process_batch tok requests inputs = Inr (requests', out)"
  shows "out_req_ids out = req_ids inputs \<and>
         length (detokenized_texts out) = length (req_ids inputs) \<and>
         length (num_output_token_ids out) = length (req_ids inputs) \<and>
         (\<forall>i < length (req_ids inputs).
            \<exists>requests0 requests1 requests2 requests3 st.
              free_loop requests (free_req_ids inputs) = Inr requests0 \<and>
              index_loop tok inputs (requests0, [], []) [0 ..< i] =
                Inr (requests1, take i (detokenized_texts out),
                     take i (num_output_token_ids out)) \<and>
              register_if_new tok inputs requests1 i (req_ids inputs ! i) = Inr requests2 \<and>
              detokenize tok requests2 (req_ids inputs ! i) (new_token_ids inputs ! i) =
                Inr (detokenized_texts out ! i, requests3) \<and>
              requests3 (req_ids inputs ! i) = Some st \<and>
              num_output_token_ids out ! i =
                int (length (token_ids st)) - int (num_prompt_tokens st))"
proof -
  let ?n = "length (req_ids inputs)"
  from process_batch_result [OF assms] obtain requests0 texts nums where
    fr: "free_loop requests (free_req_ids inputs) = Inr requests0" and
    loop: "index_loop tok inputs (requests0, [], []) [0 ..< ?n] = Inr (requests', texts, nums)"
    and out: "out = \<lparr>out_req_ids = req_ids inputs, detokenized_texts = texts,
                  num_output_token_ids = nums\<rparr>"
    by blast
  from index_loop_extends [OF loop] have len: "length texts = ?n" "length nums = ?n"
    by auto
  have "\<exists>requests1 requests2 requests3 st.
          index_loop tok inputs (requests0, [], []) [0 ..< i] =
            Inr (requests1, take i texts, take i nums) \<and>
          register_if_new tok inputs requests1 i (req_ids inputs ! i) = Inr requests2 \<and>
          detokenize tok requests2 (req_ids inputs ! i) (new_token_ids inputs ! i) =
            Inr (texts ! i, requests3) \<and>
          requests3 (req_ids inputs ! i) = Some st \<and>
          nums ! i = int (length (token_ids st)) - int (num_prompt_tokens st)"
    if i: "i < ?n" for i
  proof -
    have idx: "[0 ..< ?n] = [0 ..< i] @ i # [Suc i ..< ?n]"
      using i upt_add_eq_append [of 0 i "?n - i"] by (simp add: upt_conv_Cons)
    from loop obtain acc1 where
      pre: "index_loop tok inputs (requests0, [], []) [0 ..< i] = Inr acc1" and
      post: "index_loop tok inputs acc1 (i # [Suc i ..< ?n]) = Inr (requests', texts, nums)"
      unfolding idx index_loop_append by (auto split: sum.splits)
    obtain requests1 texts1 nums1 where acc1: "acc1 = (requests1, texts1, nums1)"
      by (cases acc1)
    from index_loop_extends [OF pre [unfolded acc1]] have l1:
      "length texts1 = i" "length nums1 = i"
      by auto
    from post obtain acc2 where
      step: "index_step tok inputs (requests1, texts1, nums1) i = Inr acc2" and
      rest: "index_loop tok inputs acc2 [Suc i ..< ?n] = Inr (requests', texts, nums)"
      unfolding acc1 by (auto split: sum.splits)
    obtain requests3 texts2 nums2 where acc2: "acc2 = (requests3, texts2, nums2)"
      by (cases acc2)
    from index_step_result [OF step [unfolded acc2]] obtain requests2 new_str st where
      reg: "register_if_new tok inputs requests1 i (req_ids inputs ! i) = Inr requests2" and
      det: "detokenize tok requests2 (req_ids inputs ! i) (new_token_ids inputs ! i) =
              Inr (new_str, requests3)" and
      st: "requests3 (req_ids inputs ! i) = Some st" and
      t2: "texts2 = texts1 @ [new_str]" and
      n2: "nums2 = nums1 @ [int (length (token_ids st)) - int (num_prompt_tokens st)]"
      by blast
    from index_loop_extends [OF rest [unfolded acc2]] obtain ts ns where
      fin: "texts = texts2 @ ts" "nums = nums2 @ ns"
      by blast
    from fin t2 n2 l1 have
      "take i texts = texts1" "take i nums = nums1" "texts ! i = new_str"
      "nums ! i = int (length (token_ids st)) - int (num_prompt_tokens st)"
      by (simp_all add: nth_append)
    with pre acc1 reg det st show ?thesis by auto
  qed
  with fr out len show ?thesis by auto
qed

lemma inputs2_result:
  "process_batch fake_tokenizer [''r1'' \<mapsto> state1] inputs2 = Inr (registry2, outputs2)"
  by (simp add: process_batch_def inputs2_def registry2_def outputs2_def index_step_def
        getitem_def register_if_new_def detokenize_def add_request_def state1_def vocab_def
        fake_tokenizer_def Let_def upt_conv_Cons)

theorem response_arrays_follow_req_ids_order_witness:
  "process_batch fake_tokenizer [''r1'' \<mapsto> state1] inputs2 = Inr (registry2, outputs2) \<and>
   out_req_ids outputs2 = req_ids inputs2 \<and>
   length (detokenized_texts outputs2) = length (req_ids inputs2) \<and>
   length (num_output_token_ids outputs2) = length (req_ids inputs2) \<and>
   req_ids inputs2 = [''r2'', ''r1''] \<and>
   detokenized_texts outputs2 = [''a'', ''c''] \<and>
   num_output_token_ids outputs2 = [1, 4]"
proof -
  have vals: "req_ids inputs2 = [''r2'', ''r1'']" "detokenized_texts outputs2 = [''a'', ''c'']"
    "num_output_token_ids outputs2 = [1, 4]"
    by (simp_all add: inputs2_def outputs2_def)
  from response_arrays_follow_req_ids_order [OF inputs2_result] have
    "out_req_ids outputs2 = req_ids inputs2"
    "length (detokenized_texts outputs2) = length (req_ids inputs2)"
    "length (num_output_token_ids outputs2) = length (req_ids inputs2)"
    by blast+
  with inputs2_result vals show ?thesis by (intro conjI)
qed

subsection \<open>The worker loop\<close>

lemma run_Cons:
  "message \<noteq> [] \<Longrightarrow>
   run tok cdc requests ((message, push_ready) # rest) =
     (case decode cdc message of
        Inl msg \<Rightarrow> ([], Raised (DecodeError msg))
      | Inr inputs \<Rightarrow>
          (case process_batch tok requests inputs of
             Inl e \<Rightarrow> ([], Raised e)
           | Inr (requests', detokenized) \<Rightarrow>
               if push_ready
               then (encode cdc detokenized # fst (run tok cdc requests' rest),
                     snd (run tok cdc requests' rest))
               else ([], Raised Again)))"
  by (simp split: sum.splits prod.splits)

lemma run_step:
  assumes "message \<noteq> []"
  shows "(\<exists>e. run tok cdc requests ((message, push_ready) # rest) = ([], Raised e)) \<or>
         (\<exists>requests1 frame.
            run tok cdc requests ((message, push_ready) # rest) =
              (frame # fst (run tok cdc requests1 rest), snd (run tok cdc requests1 rest)))"
  unfolding run_Cons [OF assms] by (auto split: sum.splits prod.splits)

lemma run_terminated_has_sentinel:
  "snd (run tok cdc requests msgs) = Terminated requests' \<Longrightarrow> \<exists>b. ([], b) \<in> set msgs"
proof (induction msgs arbitrary: requests)
  case Nil
  then show ?case by simp
next
  case (Cons m msgs)
  obtain message push_ready where m: "m = (message, push_ready)" by (cases m)
  show ?case
  proof (cases "message = []")
    case True
    with m show ?thesis by auto
  next
    case False
    from run_step [OF False, of tok cdc requests push_ready msgs] Cons.prems m
    obtain requests1 where "snd (run tok cdc requests1 msgs) = Terminated requests'"
      by auto
    from Cons.IH [OF this] show ?thesis by auto
  qed
qed

lemma run_frames_before_sentinel:
  "length (fst (run tok cdc requests msgs)) \<le> length (takeWhile (\<lambda>m. fst m \<noteq> []) msgs)"
proof (induction msgs arbitrary: requests)
  case Nil
  then show ?case by simp
next
  case (Cons m msgs)
  obtain message push_ready where m: "m = (message, push_ready)" by (cases m)
  show ?case
  proof (cases "message = []")
    case True
    with m show ?thesis by simp
  next
    case False
    from run_step [OF False, of tok cdc requests push_ready msgs]
    show ?thesis
    proof
      assume "\<exists>e. run tok cdc requests ((message, push_ready) # msgs) = ([], Raised e)"
      with m show ?thesis by auto
    next
      assume "\<exists>requests1 frame.
            run tok cdc requests ((message, push_ready) # msgs) =
              (frame # fst (run tok cdc requests1 msgs), snd (run tok cdc requests1 msgs))"
      then obtain requests1 frame where
        "run tok cdc requests ((message, push_ready) # msgs) =
              (frame # fst (run tok cdc requests1 msgs), snd (run tok cdc requests1 msgs))"
        by blast
      with m False Cons.IH [of requests1] show ?thesis by simp
    qed
  qed
qed

text \<open>
  C5. A zero-length message ends the loop at once: no frame is sent for it, and the
  messages behind it are not read. A non-empty message that decodes to a batch with no
  request entries is processed like any batch: its evictions are applied, one response
  frame with three empty arrays is sent (the push socket accepting it), and the loop
  goes on with the next message. The loop ends by its \<open>break\<close> only if a zero-length
  message was received, and no more frames are sent than there are messages before the
  first zero-length one.
\<close>

theorem empty_message_terminates_empty_batch_answers:
  "run tok cdc requests (([], push_ready) # rest) = ([], Terminated requests) \<and>
   (message \<noteq> [] \<and> decode cdc message = Inr inputs \<and> req_ids inputs = [] \<and>
    free_loop requests (free_req_ids inputs) = Inr requests_a \<longrightarrow>
      run tok cdc requests ((message, True) # rest) =
        (encode cdc \<lparr>out_req_ids = [], detokenized_texts = [], num_output_token_ids = []\<rparr>
           # fst (run tok cdc requests_a rest),
         snd (run tok cdc requests_a rest))) \<and>
   (snd (run tok cdc requests msgs) = Terminated requests_b \<longrightarrow> (\<exists>b. ([], b) \<in> set msgs)) \<and>
   length (fst (run tok cdc requests msgs)) \<le> length (takeWhile (\<lambda>m. fst m \<noteq> []) msgs)"
proof -
  have one: "run tok cdc requests (([], push_ready) # rest) = ([], Terminated requests)"
    by simp
  have two: "run tok cdc requests ((message, True) # rest) =
        (encode cdc \<lparr>out_req_ids = [], detokenized_texts = [], num_output_token_ids = []\<rparr>
           # fst (run tok cdc requests_a rest),
         snd (run tok cdc requests_a rest))"
    if "message \<noteq> []" "decode cdc message = Inr inputs" "req_ids inputs = []"
      "free_loop requests (free_req_ids inputs) = Inr requests_a"
    using that by (simp add: process_batch_def split: prod.splits)
  from one two run_terminated_has_sentinel [of tok cdc requests msgs requests_b]
    run_frames_before_sentinel [of tok cdc requests msgs]
  show ?thesis by blast
qed

theorem empty_message_terminates_empty_batch_answers_witness:
  "decode fake_codec [0] = Inr inputs0 \<and> req_ids inputs0 = [] \<and>
   run fake_tokenizer fake_codec [''r1'' \<mapsto> state1] [([0], True), ([], True), ([1], True)] =
     ([encode fake_codec outputs0], Terminated [''r1'' \<mapsto> state1]) \<and>
   run fake_tokenizer fake_codec [''r1'' \<mapsto> state1] [([], True), ([1], True)] =
     ([], Terminated [''r1'' \<mapsto> state1])"
proof -
  have dec: "decode fake_codec [0] = Inr inputs0" "req_ids inputs0 = []"
    by (simp_all add: fake_codec_def inputs0_def)
  have hyp: "[0 :: 8 word] \<noteq> [] \<and> decode fake_codec [0] = Inr inputs0 \<and>
      req_ids inputs0 = [] \<and>
      free_loop [''r1'' \<mapsto> state1] (free_req_ids inputs0) = Inr [''r1'' \<mapsto> state1]"
    by (simp add: fake_codec_def inputs0_def)
  have sentinel: "run fake_tokenizer fake_codec [''r1'' \<mapsto> state1] [([], True), ([1], True)] =
     ([], Terminated [''r1'' \<mapsto> state1])"
    by simp
  have "run fake_tokenizer fake_codec [''r1'' \<mapsto> state1]
          (([0], True) # [([], True), ([1], True)]) =
        (encode fake_codec
           \<lparr>out_req_ids = [], detokenized_texts = [], num_output_token_ids = []\<rparr>
           # fst (run fake_tokenizer fake_codec [''r1'' \<mapsto> state1] [([], True), ([1], True)]),
         snd (run fake_tokenizer fake_codec [''r1'' \<mapsto> state1] [([], True), ([1], True)]))"
    using empty_message_terminates_empty_batch_answers
            [where tok = fake_tokenizer and cdc = fake_codec
               and requests = "[''r1'' \<mapsto> state1]" and message = "[0]"
               and inputs = inputs0 and requests_a = "[''r1'' \<mapsto> state1]"
               and rest = "[([], True), ([1], True)]"] hyp
    by blast
  then have "run fake_tokenizer fake_codec [''r1'' \<mapsto> state1]
          [([0], True), ([], True), ([1], True)] =
     ([encode fake_codec outputs0], Terminated [''r1'' \<mapsto> state1])"
    by (simp add: outputs0_def)
  with dec sentinel show ?thesis by (intro conjI)
qed

subsection \<open>Evictions come first\<close>

lemma free_loop_result:
  "free_loop requests frees = Inr requests' \<Longrightarrow>
     requests' = requests |` (- set frees) \<and> distinct frees \<and> set frees \<subseteq> dom requests"
proof (induction frees arbitrary: requests)
  case Nil
  then show ?case by simp
next
  case (Cons r rs)
  from Cons.prems obtain requests1 where
    one: "free requests r = Inr requests1" and
    rest: "free_loop requests1 rs = Inr requests'"
    by (auto split: sum.splits)
  from free_result [OF one] obtain st where
    live: "requests r = Some st" and r1: "requests1 = requests(r := None)"
    by blast
  from Cons.IH [OF rest] have
    ih: "requests' = requests1 |` (- set rs)" "distinct rs" "set rs \<subseteq> dom requests1"
    by auto
  from ih(3) r1 have notin: "r \<notin> set rs" by auto
  have "requests(r := None) |` (- set rs) = requests |` (- set (r # rs))"
    by (rule ext) (simp add: restrict_map_def)
  with ih r1 live notin show ?case by auto
qed

lemma free_loop_agree:
  "r \<in> set frees \<Longrightarrow> \<forall>k. k \<noteq> r \<longrightarrow> m_a k = m_b k \<Longrightarrow>
   m_a r \<noteq> None \<Longrightarrow> m_b r \<noteq> None \<Longrightarrow>
     free_loop m_a frees = free_loop m_b frees"
proof (induction frees arbitrary: m_a m_b)
  case Nil
  then show ?case by simp
next
  case (Cons f fs)
  show ?case
  proof (cases "f = r")
    case True
    have "m_a(r := None) = m_b(r := None)"
      using Cons.prems(2) by (intro ext) simp
    with True Cons.prems(3,4) show ?thesis
      by (auto simp: free_def split: option.splits)
  next
    case False
    with Cons.prems(1) have mem: "r \<in> set fs" by simp
    from False Cons.prems(2) have same: "m_a f = m_b f" by simp
    show ?thesis
    proof (cases "m_a f")
      case None
      with same show ?thesis by (simp add: free_def)
    next
      case (Some st)
      have "free_loop (m_a(f := None)) fs = free_loop (m_b(f := None)) fs"
        using mem Cons.prems(2,3,4) False by (intro Cons.IH) auto
      with Some same show ?thesis by (simp add: free_def)
    qed
  qed
qed

lemma free_loop_old_state_irrelevant:
  "r \<in> set frees \<Longrightarrow>
     free_loop (requests(r \<mapsto> old_a)) frees = free_loop (requests(r \<mapsto> old_b)) frees"
  by (rule free_loop_agree) auto

lemma register_if_new_free_req_ids:
  "register_if_new tok (inputs\<lparr>free_req_ids := fs\<rparr>) requests i rid =
     register_if_new tok inputs requests i rid"
  by (simp add: register_if_new_def cong: option.case_cong sum.case_cong)

lemma index_step_free_req_ids:
  "index_step tok (inputs\<lparr>free_req_ids := fs\<rparr>) acc i = index_step tok inputs acc i"
  by (cases acc)
     (auto simp: index_step_def register_if_new_free_req_ids
           split: sum.splits option.splits prod.splits)

lemma index_loop_free_req_ids:
  "index_loop tok (inputs\<lparr>free_req_ids := fs\<rparr>) acc idxs = index_loop tok inputs acc idxs"
  by (induction idxs arbitrary: acc)
     (simp_all add: index_step_free_req_ids split: sum.splits)

lemma process_batch_evictions_first:
  "process_batch tok requests inputs =
     (case free_loop requests (free_req_ids inputs) of
        Inl e \<Rightarrow> Inl e
      | Inr requests_a \<Rightarrow> process_batch tok requests_a (inputs\<lparr>free_req_ids := []\<rparr>))"
  by (simp add: process_batch_def index_loop_free_req_ids split: sum.splits)

lemma index_step_register_then_advance:
  "index_step tok inputs (requests, texts, nums) i =
     (case register_then_advance tok inputs requests i of
        Inl e \<Rightarrow> Inl e
      | Inr (requests_a, new_str, n) \<Rightarrow> Inr (requests_a, texts @ [new_str], nums @ [n]))"
  by (simp add: index_step_def register_then_advance_def
           split: sum.splits prod.splits option.splits)

lemma index_loop_indices_in_order:
  "index_loop tok inputs (requests, texts, nums) [i ..< i + k] =
     (case indices_in_order tok inputs requests i k of
        Inl e \<Rightarrow> Inl e
      | Inr (requests_a, ts, ns) \<Rightarrow> Inr (requests_a, texts @ ts, nums @ ns))"
proof (induction k arbitrary: i requests texts nums)
  case 0
  show ?case by simp
next
  case (Suc k)
  have idx: "[i ..< i + Suc k] = i # [Suc i ..< Suc i + k]"
    by (simp add: upt_conv_Cons)
  have unroll: "index_loop tok inputs (requests, texts, nums) [i ..< i + Suc k] =
     (case index_step tok inputs (requests, texts, nums) i of
        Inl e \<Rightarrow> Inl e
      | Inr acc \<Rightarrow> index_loop tok inputs acc [Suc i ..< Suc i + k])"
    by (simp only: idx index_loop.simps)
  show ?case
  proof (cases "register_then_advance tok inputs requests i")
    case (Inl e)
    then show ?thesis
      by (simp only: unroll index_step_register_then_advance indices_in_order.simps
            sum.case)
  next
    case (Inr res)
    obtain requests_a new_str n where res: "res = (requests_a, new_str, n)"
      by (cases res)
    have ih: "index_loop tok inputs (requests_a, texts @ [new_str], nums @ [n])
            [Suc i ..< Suc i + k] =
          (case indices_in_order tok inputs requests_a (Suc i) k of
             Inl e \<Rightarrow> Inl e
           | Inr (requests_b, ts, ns) \<Rightarrow>
               Inr (requests_b, (texts @ [new_str]) @ ts, (nums @ [n]) @ ns))"
      by (rule Suc.IH)
    have "index_loop tok inputs (requests, texts, nums) [i ..< i + Suc k] =
          index_loop tok inputs (requests_a, texts @ [new_str], nums @ [n])
            [Suc i ..< Suc i + k]"
      by (simp only: unroll index_step_register_then_advance Inr res sum.case prod.case)
    also have "\<dots> =
          (case indices_in_order tok inputs requests (i) (Suc k) of
             Inl e \<Rightarrow> Inl e
           | Inr (requests_b, ts, ns) \<Rightarrow> Inr (requests_b, texts @ ts, nums @ ns))"
      unfolding ih
      by (cases "indices_in_order tok inputs requests_a (Suc i) k")
         (auto simp: Inr res)
    finally show ?thesis .
  qed
qed

lemma process_batch_evictions_then_indices:
  "process_batch tok requests inputs =
     (case evictions_then_indices tok requests inputs of
        Inl e \<Rightarrow> Inl e
      | Inr (requests_f, texts_f, nums_f) \<Rightarrow>
          Inr (requests_f,
               \<lparr>out_req_ids = req_ids inputs, detokenized_texts = texts_f,
                num_output_token_ids = nums_f\<rparr>))"
proof -
  have "index_loop tok inputs (requests_a, [], []) [0 ..< length (req_ids inputs)] =
     (case indices_in_order tok inputs requests_a 0 (length (req_ids inputs)) of
        Inl e \<Rightarrow> Inl e
      | Inr (requests_b, ts, ns) \<Rightarrow> Inr (requests_b, ts, ns))" for requests_a
    using index_loop_indices_in_order [of tok inputs requests_a "[]" "[]" 0
            "length (req_ids inputs)"]
    by (simp cong: sum.case_cong prod.case_cong)
  then show ?thesis
    by (simp add: process_batch_def evictions_then_indices_def
             split: sum.splits prod.splits)
qed

text \<open>
  C7. Processing a batch is: all evictions of \<open>free_req_ids\<close> first, then the batch
  without evictions on the registry they leave, which is the old one without the freed
  ids. A state whose id is in \<open>free_req_ids\<close> is gone before any index is processed:
  what the batch does is the same whatever that state was. The whole of
  \<open>process_batch\<close> is the spec's sequence: the evictions, then the indices
  \<open>0, 1, ...\<close> in increasing order, each doing register-if-new and then advance on the
  registry the index before it left, the response listing their texts and counts in
  that order. Within an index \<open>detokenize\<close> runs on the registry that the
  registration step returned.
\<close>

theorem evictions_precede_register_and_advance:
  "process_batch tok requests inputs =
     (case free_loop requests (free_req_ids inputs) of
        Inl e \<Rightarrow> Inl e
      | Inr requests_a \<Rightarrow> process_batch tok requests_a (inputs\<lparr>free_req_ids := []\<rparr>)) \<and>
   (free_loop requests (free_req_ids inputs) = Inr requests_b \<longrightarrow>
      requests_b = requests |` (- set (free_req_ids inputs))) \<and>
   (r \<in> set (free_req_ids inputs) \<longrightarrow>
      process_batch tok (requests(r \<mapsto> old_a)) inputs =
      process_batch tok (requests(r \<mapsto> old_b)) inputs) \<and>
   process_batch tok requests inputs =
     (case evictions_then_indices tok requests inputs of
        Inl e \<Rightarrow> Inl e
      | Inr (requests_f, texts_f, nums_f) \<Rightarrow>
          Inr (requests_f,
               \<lparr>out_req_ids = req_ids inputs, detokenized_texts = texts_f,
                num_output_token_ids = nums_f\<rparr>)) \<and>
   (index_step tok inputs (requests_c, texts, nums) i = Inr (requests_d, texts_a, nums_a) \<longrightarrow>
      (\<exists>requests_e new_str.
         register_if_new tok inputs requests_c i (req_ids inputs ! i) = Inr requests_e \<and>
         detokenize tok requests_e (req_ids inputs ! i) (new_token_ids inputs ! i) =
           Inr (new_str, requests_d)))"
proof (intro conjI impI)
  show "process_batch tok requests inputs =
     (case free_loop requests (free_req_ids inputs) of
        Inl e \<Rightarrow> Inl e
      | Inr requests_a \<Rightarrow> process_batch tok requests_a (inputs\<lparr>free_req_ids := []\<rparr>))"
    by (rule process_batch_evictions_first)
next
  assume "free_loop requests (free_req_ids inputs) = Inr requests_b"
  from free_loop_result [OF this]
  show "requests_b = requests |` (- set (free_req_ids inputs))" by simp
next
  assume "r \<in> set (free_req_ids inputs)"
  then have "free_loop (requests(r \<mapsto> old_a)) (free_req_ids inputs) =
             free_loop (requests(r \<mapsto> old_b)) (free_req_ids inputs)"
    by (rule free_loop_old_state_irrelevant)
  then show "process_batch tok (requests(r \<mapsto> old_a)) inputs =
             process_batch tok (requests(r \<mapsto> old_b)) inputs"
    by (simp add: process_batch_def)
next
  show "process_batch tok requests inputs =
     (case evictions_then_indices tok requests inputs of
        Inl e \<Rightarrow> Inl e
      | Inr (requests_f, texts_f, nums_f) \<Rightarrow>
          Inr (requests_f,
               \<lparr>out_req_ids = req_ids inputs, detokenized_texts = texts_f,
                num_output_token_ids = nums_f\<rparr>))"
    by (rule process_batch_evictions_then_indices)
next
  assume "index_step tok inputs (requests_c, texts, nums) i = Inr (requests_d, texts_a, nums_a)"
  from index_step_result [OF this]
  show "\<exists>requests_e new_str.
         register_if_new tok inputs requests_c i (req_ids inputs ! i) = Inr requests_e \<and>
         detokenize tok requests_e (req_ids inputs ! i) (new_token_ids inputs ! i) =
           Inr (new_str, requests_d)"
    by blast
qed

lemma inputs2_in_order:
  "evictions_then_indices fake_tokenizer [''r1'' \<mapsto> state1] inputs2 =
     Inr (registry2, [''a'', ''c''], [1, 4])"
  by (simp add: evictions_then_indices_def register_then_advance_def inputs2_def
        registry2_def getitem_def register_if_new_def detokenize_def add_request_def
        state1_def vocab_def fake_tokenizer_def Let_def numeral_2_eq_2)

lemma inputs3_result:
  "process_batch fake_tokenizer [''r1'' \<mapsto> state1] inputs3 =
     Inr ([''r1'' \<mapsto> state3], outputs3)"
  by (simp add: process_batch_def inputs3_def state3_def outputs3_def index_step_def
        getitem_def register_if_new_def detokenize_def add_request_def free_def vocab_def
        fake_tokenizer_def Let_def)

theorem evictions_precede_register_and_advance_witness:
  "''r1'' \<in> set (free_req_ids inputs3) \<and>
   process_batch fake_tokenizer [''r1'' \<mapsto> state1] inputs3 =
     Inr ([''r1'' \<mapsto> state3], outputs3) \<and>
   process_batch fake_tokenizer [''r1'' \<mapsto> state0] inputs3 =
     process_batch fake_tokenizer [''r1'' \<mapsto> state1] inputs3 \<and>
   token_ids state3 = [3, 1] \<and>
   req_ids inputs2 = [''r2'', ''r1''] \<and>
   evictions_then_indices fake_tokenizer [''r1'' \<mapsto> state1] inputs2 =
     Inr (registry2, [''a'', ''c''], [1, 4]) \<and>
   process_batch fake_tokenizer [''r1'' \<mapsto> state1] inputs2 =
     Inr (registry2,
          \<lparr>out_req_ids = req_ids inputs2, detokenized_texts = [''a'', ''c''],
           num_output_token_ids = [1, 4]\<rparr>)"
proof -
  have mem: "''r1'' \<in> set (free_req_ids inputs3)" by (simp add: inputs3_def)
  have val: "token_ids state3 = [3, 1]" "req_ids inputs2 = [''r2'', ''r1'']"
    by (simp_all add: state3_def inputs2_def)
  have old: "process_batch fake_tokenizer [''r1'' \<mapsto> state0] inputs3 =
        process_batch fake_tokenizer [''r1'' \<mapsto> state1] inputs3"
    using evictions_precede_register_and_advance
            [where tok = fake_tokenizer and requests = Map.empty and inputs = inputs3
               and r = "''r1''" and old_a = state0 and old_b = state1] mem
    by blast
  have "process_batch fake_tokenizer [''r1'' \<mapsto> state1] inputs2 =
     (case evictions_then_indices fake_tokenizer [''r1'' \<mapsto> state1] inputs2 of
        Inl e \<Rightarrow> Inl e
      | Inr (requests_f, texts_f, nums_f) \<Rightarrow>
          Inr (requests_f,
               \<lparr>out_req_ids = req_ids inputs2, detokenized_texts = texts_f,
                num_output_token_ids = nums_f\<rparr>))"
    using evictions_precede_register_and_advance
            [where tok = fake_tokenizer and requests = "[''r1'' \<mapsto> state1]"
               and inputs = inputs2]
    by blast
  then have order: "process_batch fake_tokenizer [''r1'' \<mapsto> state1] inputs2 =
     Inr (registry2,
          \<lparr>out_req_ids = req_ids inputs2, detokenized_texts = [''a'', ''c''],
           num_output_token_ids = [1, 4]\<rparr>)"
    by (simp add: inputs2_in_order)
  from mem inputs3_result old val inputs2_in_order order show ?thesis by (intro conjI)
qed

subsection \<open>A live request at an index\<close>

lemma register_if_new_live:
  "requests rid = Some st \<Longrightarrow> register_if_new tok inputs requests i rid = Inr requests"
  by (simp add: register_if_new_def)

lemma index_step_live:
  assumes "requests (req_ids inputs ! i) = Some st" and "i < length (req_ids inputs)"
  shows "index_step tok inputs (requests, texts, nums) i =
     (case getitem (new_token_ids inputs) i of
        Inl e \<Rightarrow> Inl e
      | Inr new_ids \<Rightarrow>
          (case detokenize tok requests (req_ids inputs ! i) new_ids of
             Inl e \<Rightarrow> Inl e
           | Inr (new_str, requests_a) \<Rightarrow>
               (case requests_a (req_ids inputs ! i) of
                  None \<Rightarrow> Inl (KeyError (req_ids inputs ! i))
                | Some req_state \<Rightarrow>
                    Inr (requests_a, texts @ [new_str],
                         nums @ [int (length (token_ids req_state))
                                  - int (num_prompt_tokens req_state)]))))"
  using assms by (simp add: index_step_def getitem_def register_if_new_live)

lemma index_step_live_fields:
  assumes "requests (req_ids inputs ! i) = Some st" and "i < length (req_ids inputs)"
  shows "index_step tok
           (inputs\<lparr>prompt_token_ids := p, in_skip_special_tokens := s,
                   in_spaces_between_special_tokens := t\<rparr>) (requests, texts, nums) i =
         index_step tok inputs (requests, texts, nums) i"
proof -
  let ?upd = "inputs\<lparr>prompt_token_ids := p, in_skip_special_tokens := s,
                     in_spaces_between_special_tokens := t\<rparr>"
  have u: "requests (req_ids ?upd ! i) = Some st" "i < length (req_ids ?upd)"
    using assms by simp_all
  have "index_step tok ?upd (requests, texts, nums) i =
     (case getitem (new_token_ids ?upd) i of
        Inl e \<Rightarrow> Inl e
      | Inr new_ids \<Rightarrow>
          (case detokenize tok requests (req_ids ?upd ! i) new_ids of
             Inl e \<Rightarrow> Inl e
           | Inr (new_str, requests_a) \<Rightarrow>
               (case requests_a (req_ids ?upd ! i) of
                  None \<Rightarrow> Inl (KeyError (req_ids ?upd ! i))
                | Some req_state \<Rightarrow>
                    Inr (requests_a, texts @ [new_str],
                         nums @ [int (length (token_ids req_state))
                                  - int (num_prompt_tokens req_state)]))))"
    using u by (rule index_step_live)
  moreover have "index_step tok inputs (requests, texts, nums) i =
     (case getitem (new_token_ids inputs) i of
        Inl e \<Rightarrow> Inl e
      | Inr new_ids \<Rightarrow>
          (case detokenize tok requests (req_ids inputs ! i) new_ids of
             Inl e \<Rightarrow> Inl e
           | Inr (new_str, requests_a) \<Rightarrow>
               (case requests_a (req_ids inputs ! i) of
                  None \<Rightarrow> Inl (KeyError (req_ids inputs ! i))
                | Some req_state \<Rightarrow>
                    Inr (requests_a, texts @ [new_str],
                         nums @ [int (length (token_ids req_state))
                                  - int (num_prompt_tokens req_state)]))))"
    using assms by (rule index_step_live)
  ultimately show ?thesis
    by (simp cong: sum.case_cong option.case_cong prod.case_cong)
qed

lemma index_step_keeps_live:
  assumes "index_step tok inputs (requests, texts, nums) i = Inr (requests_a, texts_a, nums_a)"
    and "requests k \<noteq> None"
  shows "requests_a k \<noteq> None"
proof -
  from index_step_result [OF assms(1)] obtain requests_b new_str where
    reg: "register_if_new tok inputs requests i (req_ids inputs ! i) = Inr requests_b" and
    det: "detokenize tok requests_b (req_ids inputs ! i) (new_token_ids inputs ! i) =
            Inr (new_str, requests_a)"
    by blast
  from register_if_new_result [OF reg] assms(2) have "requests_b k \<noteq> None"
    by (auto dest!: add_request_result)
  with detokenize_result [OF det] show ?thesis by auto
qed

lemma index_loop_live_fields:
  "\<forall>i \<in> set idxs. i < length (req_ids inputs) \<and> requests (req_ids inputs ! i) \<noteq> None \<Longrightarrow>
     index_loop tok
       (inputs\<lparr>prompt_token_ids := p, in_skip_special_tokens := s,
               in_spaces_between_special_tokens := t\<rparr>) (requests, texts, nums) idxs =
     index_loop tok inputs (requests, texts, nums) idxs"
proof (induction idxs arbitrary: requests texts nums)
  case Nil
  show ?case by simp
next
  case (Cons i idxs)
  let ?upd = "inputs\<lparr>prompt_token_ids := p, in_skip_special_tokens := s,
                     in_spaces_between_special_tokens := t\<rparr>"
  from Cons.prems obtain st where
    live: "requests (req_ids inputs ! i) = Some st" and i: "i < length (req_ids inputs)"
    by auto
  have step: "index_step tok ?upd (requests, texts, nums) i =
              index_step tok inputs (requests, texts, nums) i"
    using live i by (rule index_step_live_fields)
  show ?case
  proof (cases "index_step tok inputs (requests, texts, nums) i")
    case (Inl e)
    with step show ?thesis by simp
  next
    case (Inr acc)
    obtain requests_a texts_a nums_a where acc: "acc = (requests_a, texts_a, nums_a)"
      by (cases acc)
    have "\<forall>j \<in> set idxs. j < length (req_ids inputs) \<and>
            requests_a (req_ids inputs ! j) \<noteq> None"
      using Cons.prems index_step_keeps_live [OF Inr [unfolded acc]] by auto
    from Cons.IH [OF this] step Inr acc show ?thesis by simp
  qed
qed

lemma process_batch_live_fields:
  assumes "\<forall>k \<in> set (req_ids inputs). requests k \<noteq> None \<and> k \<notin> set (free_req_ids inputs)"
  shows "process_batch tok requests
           (inputs\<lparr>prompt_token_ids := p, in_skip_special_tokens := s,
                   in_spaces_between_special_tokens := t\<rparr>) =
         process_batch tok requests inputs"
proof (cases "free_loop requests (free_req_ids inputs)")
  case (Inl e)
  then show ?thesis by (simp add: process_batch_def)
next
  case (Inr requests_a)
  from free_loop_result [OF Inr] have
    "requests_a = requests |` (- set (free_req_ids inputs))" by simp
  with assms have
    "\<forall>i \<in> set [0 ..< length (req_ids inputs)].
       i < length (req_ids inputs) \<and> requests_a (req_ids inputs ! i) \<noteq> None"
    by (auto simp: restrict_map_def)
  then have "index_loop tok
       (inputs\<lparr>prompt_token_ids := p, in_skip_special_tokens := s,
               in_spaces_between_special_tokens := t\<rparr>) (requests_a, [], [])
       [0 ..< length (req_ids inputs)] =
     index_loop tok inputs (requests_a, [], []) [0 ..< length (req_ids inputs)]"
    by (rule index_loop_live_fields)
  with Inr show ?thesis
    by (simp add: process_batch_def cong: sum.case_cong prod.case_cong)
qed

text \<open>
  C10. At an index whose request id is already live, the batch's \<open>prompt_token_ids\<close>,
  \<open>skip_special_tokens\<close> and \<open>spaces_between_special_tokens\<close> are not read: replacing
  the three arrays by any others leaves the result of the index unchanged. When the
  index succeeds, the state keeps its flags, its \<open>num_prompt_tokens\<close> and its
  \<open>req_id\<close>, keeps its tokens as a prefix, has gained exactly \<open>new_token_ids[i]\<close> in
  \<open>token_ids\<close>, and no other request has changed. A whole batch whose ids are all
  live and not freed by it does not depend on the three arrays either.
\<close>

theorem live_request_ignores_registration_fields:
  assumes "requests (req_ids inputs ! i) = Some st" and "i < length (req_ids inputs)"
  shows "index_step tok
           (inputs\<lparr>prompt_token_ids := p, in_skip_special_tokens := s,
                   in_spaces_between_special_tokens := t\<rparr>) (requests, texts, nums) i =
         index_step tok inputs (requests, texts, nums) i \<and>
         (index_step tok inputs (requests, texts, nums) i = Inr (requests_a, texts_a, nums_a) \<longrightarrow>
            (\<exists>st_a. requests_a (req_ids inputs ! i) = Some st_a \<and>
               skip_special_tokens st_a = skip_special_tokens st \<and>
               spaces_between_special_tokens st_a = spaces_between_special_tokens st \<and>
               num_prompt_tokens st_a = num_prompt_tokens st \<and>
               req_id st_a = req_id st \<and>
               token_ids st_a = token_ids st @ new_token_ids inputs ! i \<and>
               (\<exists>more. tokens st_a = tokens st @ more) \<and>
               (\<forall>k. k \<noteq> req_ids inputs ! i \<longrightarrow> requests_a k = requests k))) \<and>
         ((\<forall>k \<in> set (req_ids inputs_b).
              requests_b k \<noteq> None \<and> k \<notin> set (free_req_ids inputs_b)) \<longrightarrow>
            process_batch tok requests_b
              (inputs_b\<lparr>prompt_token_ids := p, in_skip_special_tokens := s,
                        in_spaces_between_special_tokens := t\<rparr>) =
            process_batch tok requests_b inputs_b)"
proof (intro conjI impI)
  show "index_step tok
           (inputs\<lparr>prompt_token_ids := p, in_skip_special_tokens := s,
                   in_spaces_between_special_tokens := t\<rparr>) (requests, texts, nums) i =
         index_step tok inputs (requests, texts, nums) i"
    using assms by (rule index_step_live_fields)
next
  assume step: "index_step tok inputs (requests, texts, nums) i =
                  Inr (requests_a, texts_a, nums_a)"
  from index_step_result [OF step] obtain requests_c new_str where
    reg: "register_if_new tok inputs requests i (req_ids inputs ! i) = Inr requests_c" and
    det: "detokenize tok requests_c (req_ids inputs ! i) (new_token_ids inputs ! i) =
            Inr (new_str, requests_a)"
    by blast
  from reg assms(1) have "requests_c = requests"
    by (simp add: register_if_new_live)
  with detokenize_result [OF det] assms(1)
  show "\<exists>st_a. requests_a (req_ids inputs ! i) = Some st_a \<and>
               skip_special_tokens st_a = skip_special_tokens st \<and>
               spaces_between_special_tokens st_a = spaces_between_special_tokens st \<and>
               num_prompt_tokens st_a = num_prompt_tokens st \<and>
               req_id st_a = req_id st \<and>
               token_ids st_a = token_ids st @ new_token_ids inputs ! i \<and>
               (\<exists>more. tokens st_a = tokens st @ more) \<and>
               (\<forall>k. k \<noteq> req_ids inputs ! i \<longrightarrow> requests_a k = requests k)"
    by auto
next
  assume "\<forall>k \<in> set (req_ids inputs_b).
              requests_b k \<noteq> None \<and> k \<notin> set (free_req_ids inputs_b)"
  then show "process_batch tok requests_b
              (inputs_b\<lparr>prompt_token_ids := p, in_skip_special_tokens := s,
                        in_spaces_between_special_tokens := t\<rparr>) =
            process_batch tok requests_b inputs_b"
    by (rule process_batch_live_fields)
qed

theorem live_request_ignores_registration_fields_witness:
  "[''r1'' \<mapsto> state1] (req_ids inputs1 ! 0) = Some state1 \<and>
   (0 :: nat) < length (req_ids inputs1) \<and>
   index_step fake_tokenizer
     (inputs1\<lparr>prompt_token_ids := [[1]], in_skip_special_tokens := [],
              in_spaces_between_special_tokens := [False]\<rparr>)
     ([''r1'' \<mapsto> state1], [], []) 0 =
     Inr ([''r1'' \<mapsto> state2], [''cc''], [5]) \<and>
   skip_special_tokens state2 = skip_special_tokens state1 \<and>
   num_prompt_tokens state2 = num_prompt_tokens state1"
proof -
  have live: "[''r1'' \<mapsto> state1] (req_ids inputs1 ! 0) = Some state1"
    by (simp add: inputs1_def)
  have idx: "(0 :: nat) < length (req_ids inputs1)"
    by (simp add: inputs1_def)
  have vals: "skip_special_tokens state2 = skip_special_tokens state1"
    "num_prompt_tokens state2 = num_prompt_tokens state1"
    by (simp_all add: state1_def state2_def)
  have "index_step fake_tokenizer
     (inputs1\<lparr>prompt_token_ids := [[1]], in_skip_special_tokens := [],
              in_spaces_between_special_tokens := [False]\<rparr>)
     ([''r1'' \<mapsto> state1], [], []) 0 =
     index_step fake_tokenizer inputs1 ([''r1'' \<mapsto> state1], [], []) 0"
    using live_request_ignores_registration_fields
            [where requests = "[''r1'' \<mapsto> state1]" and inputs = inputs1 and i = 0
               and st = state1 and tok = fake_tokenizer and p = "[[1]]" and s = "[]"
               and t = "[False]" and texts = "[]" and nums = "[]"] live idx
    by blast
  with inputs1_step have "index_step fake_tokenizer
     (inputs1\<lparr>prompt_token_ids := [[1]], in_skip_special_tokens := [],
              in_spaces_between_special_tokens := [False]\<rparr>)
     ([''r1'' \<mapsto> state1], [], []) 0 =
     Inr ([''r1'' \<mapsto> state2], [''cc''], [5])"
    by simp
  with live idx vals show ?thesis by (intro conjI)
qed

subsection \<open>Which exceptions the steps raise\<close>



















subsection \<open>Arrays of different lengths\<close>















subsection \<open>The counts a batch reports\<close>

lemma ids_added_before_Suc:
  "ids_added_before inputs r (Suc i) =
     ids_added_before inputs r i
       + (if req_ids inputs ! i = r then length (new_token_ids inputs ! i) else 0)"
  by (simp add: ids_added_before_def)

lemma ids_added_before_no_later:
  "i \<le> n \<Longrightarrow> \<forall>j. i \<le> j \<and> j < n \<longrightarrow> req_ids inputs ! j \<noteq> r \<Longrightarrow>
     ids_added_before inputs r n = ids_added_before inputs r i"
proof (induction n)
  case 0
  then show ?case by simp
next
  case (Suc n)
  show ?case
  proof (cases "i = Suc n")
    case True
    then show ?thesis by simp
  next
    case False
    with Suc.prems have le: "i \<le> n" by simp
    from Suc.prems(2) have "\<forall>j. i \<le> j \<and> j < n \<longrightarrow> req_ids inputs ! j \<noteq> r" by auto
    from Suc.IH [OF le this] Suc.prems(2) le show ?thesis
      by (simp add: ids_added_before_Suc)
  qed
qed

lemma index_step_count:
  assumes "index_step tok inputs (requests, texts, nums) i = Inr (requests_a, texts_a, nums_a)"
  shows "nums_a = nums @ [output_count requests (req_ids inputs ! i)
                           + int (length (new_token_ids inputs ! i))] \<and>
         output_count requests_a (req_ids inputs ! i) =
           output_count requests (req_ids inputs ! i)
             + int (length (new_token_ids inputs ! i)) \<and>
         (\<forall>k. k \<noteq> req_ids inputs ! i \<longrightarrow> output_count requests_a k = output_count requests k)"
proof -
  let ?rid = "req_ids inputs ! i"
  let ?new = "new_token_ids inputs ! i"
  from index_step_result [OF assms] obtain requests_b new_str st where
    reg: "register_if_new tok inputs requests i ?rid = Inr requests_b" and
    det: "detokenize tok requests_b ?rid ?new = Inr (new_str, requests_a)" and
    st: "requests_a ?rid = Some st" and
    nums_a: "nums_a = nums @ [int (length (token_ids st)) - int (num_prompt_tokens st)]"
    by blast
  from detokenize_result [OF det] st obtain st_b where
    st_b: "requests_b ?rid = Some st_b" and
    upd: "requests_a = requests_b(?rid \<mapsto> st)" and
    ids: "token_ids st = token_ids st_b @ ?new" and
    npt: "num_prompt_tokens st = num_prompt_tokens st_b"
    by auto
  have before: "int (length (token_ids st_b)) - int (num_prompt_tokens st_b) =
                  output_count requests ?rid"
    and others: "\<forall>k. k \<noteq> ?rid \<longrightarrow> requests_b k = requests k"
  proof -
    from register_if_new_result [OF reg]
    show "int (length (token_ids st_b)) - int (num_prompt_tokens st_b) =
            output_count requests ?rid"
      using st_b by (auto simp: output_count_def dest!: add_request_result)
    from register_if_new_result [OF reg]
    show "\<forall>k. k \<noteq> ?rid \<longrightarrow> requests_b k = requests k"
      by (auto dest!: add_request_result)
  qed
  have cnt: "int (length (token_ids st)) - int (num_prompt_tokens st) =
               output_count requests ?rid + int (length ?new)"
    using before ids npt by simp
  with nums_a st others upd show ?thesis
    by (simp add: output_count_def)
qed

lemma index_loop_count:
  "index_loop tok inputs (requests, [], []) [0 ..< i] = Inr (requests_a, texts_a, nums_a) \<Longrightarrow>
     (\<forall>r. output_count requests_a r =
            output_count requests r + int (ids_added_before inputs r i)) \<and>
     nums_a = map (\<lambda>j. output_count requests (req_ids inputs ! j)
                         + int (ids_added_before inputs (req_ids inputs ! j) (Suc j)))
                  [0 ..< i]"
proof (induction i arbitrary: requests_a texts_a nums_a)
  case 0
  then show ?case by (simp add: ids_added_before_def)
next
  case (Suc i)
  from Suc.prems obtain acc where
    pre: "index_loop tok inputs (requests, [], []) [0 ..< i] = Inr acc" and
    post: "index_loop tok inputs acc [i] = Inr (requests_a, texts_a, nums_a)"
    by (auto simp: index_loop_append split: sum.splits)
  obtain requests_b texts_b nums_b where acc: "acc = (requests_b, texts_b, nums_b)"
    by (cases acc)
  from post acc have step:
    "index_step tok inputs (requests_b, texts_b, nums_b) i = Inr (requests_a, texts_a, nums_a)"
    by (auto split: sum.splits)
  from Suc.IH [OF pre [unfolded acc]] have
    ih1: "\<forall>r. output_count requests_b r =
            output_count requests r + int (ids_added_before inputs r i)" and
    ih2: "nums_b = map (\<lambda>j. output_count requests (req_ids inputs ! j)
                         + int (ids_added_before inputs (req_ids inputs ! j) (Suc j)))
                  [0 ..< i]"
    by auto
  from index_step_count [OF step] have
    s1: "nums_a = nums_b @ [output_count requests_b (req_ids inputs ! i)
                           + int (length (new_token_ids inputs ! i))]" and
    s2: "output_count requests_a (req_ids inputs ! i) =
           output_count requests_b (req_ids inputs ! i)
             + int (length (new_token_ids inputs ! i))" and
    s3: "\<forall>k. k \<noteq> req_ids inputs ! i \<longrightarrow> output_count requests_a k = output_count requests_b k"
    by auto
  have a: "\<forall>r. output_count requests_a r =
            output_count requests r + int (ids_added_before inputs r (Suc i))"
  proof
    fix r
    show "output_count requests_a r =
            output_count requests r + int (ids_added_before inputs r (Suc i))"
      using ih1 s2 s3 by (cases "r = req_ids inputs ! i") (simp_all add: ids_added_before_Suc)
  qed
  have b: "nums_a = map (\<lambda>j. output_count requests (req_ids inputs ! j)
                         + int (ids_added_before inputs (req_ids inputs ! j) (Suc j)))
                  [0 ..< Suc i]"
    using s1 ih1 ih2 by (simp add: ids_added_before_Suc)
  from a b show ?case by simp
qed

lemma index_loop_live:
  "index_loop tok inputs (requests, texts, nums) idxs = Inr (requests_a, texts_a, nums_a) \<Longrightarrow>
     (\<forall>k. requests k \<noteq> None \<longrightarrow> requests_a k \<noteq> None) \<and>
     (\<forall>i \<in> set idxs. requests_a (req_ids inputs ! i) \<noteq> None)"
proof (induction idxs arbitrary: requests texts nums)
  case Nil
  then show ?case by simp
next
  case (Cons i idxs)
  from Cons.prems obtain acc where
    step: "index_step tok inputs (requests, texts, nums) i = Inr acc" and
    rest: "index_loop tok inputs acc idxs = Inr (requests_a, texts_a, nums_a)"
    by (auto split: sum.splits)
  obtain requests_b texts_b nums_b where acc: "acc = (requests_b, texts_b, nums_b)"
    by (cases acc)
  from index_step_result [OF step [unfolded acc]] have
    live_i: "requests_b (req_ids inputs ! i) \<noteq> None" by auto
  have keep: "\<forall>k. requests k \<noteq> None \<longrightarrow> requests_b k \<noteq> None"
    using index_step_keeps_live [OF step [unfolded acc]] by blast
  from Cons.IH [OF rest [unfolded acc]] have
    ih: "\<forall>k. requests_b k \<noteq> None \<longrightarrow> requests_a k \<noteq> None"
        "\<forall>j \<in> set idxs. requests_a (req_ids inputs ! j) \<noteq> None"
    by auto
  from live_i keep ih show ?case by auto
qed

lemma output_count_after_evictions:
  assumes "free_loop requests frees = Inr requests_a"
  shows "output_count requests_a r = (if r \<in> set frees then 0 else output_count requests r)"
  using free_loop_result [OF assms] by (simp add: output_count_def restrict_map_def)

lemma output_count_history:
  assumes "\<forall>r st. requests r = Some st \<longrightarrow>
             int (length (token_ids st)) - int (num_prompt_tokens st) =
             int (sum_list (map (length \<circ> fst) (hist r)))"
  shows "output_count requests r =
           (case requests r of
              None \<Rightarrow> 0
            | Some _ \<Rightarrow> int (sum_list (map (length \<circ> fst) (hist r))))"
  using assms by (simp add: output_count_def split: option.splits)

text \<open>
  C3, amended. Let the count of every live request be the number of ids its
  \<open>detokenize\<close> calls have added since its registration, as it is in the empty
  registry; run any sequence of operations, then a batch. Entry \<open>i\<close> of the
  response's \<open>num_output_token_ids\<close> is the sum of the ids added by all calls on
  \<open>req_ids[i]\<close> since its registration up to and including the call of index \<open>i\<close>:
  the ids added before the batch (none when the batch frees the id or finds it absent,
  and so registers it) plus those of the batch's indices up to \<open>i\<close>. It is the count
  at the time of that index's \<open>detokenize\<close>; the count of the state when the response
  is assembled exceeds it by the ids that later indices of the batch add to the same
  request, and equals it when the id does not occur again in the batch.
\<close>

theorem num_output_token_ids_counts_ids_added_so_far:
  assumes "\<forall>r st. requests r = Some st \<longrightarrow>
             int (length (token_ids st)) - int (num_prompt_tokens st) =
             int (sum_list (map (length \<circ> fst) (hist r)))"
    and "apply_operations tok (requests, hist) ops = Inr (requests_a, hist_a)"
    and "process_batch tok requests_a inputs = Inr (requests_b, out)"
  shows "\<forall>i < length (req_ids inputs).
           num_output_token_ids out ! i =
             (if req_ids inputs ! i \<in> set (free_req_ids inputs) then 0
              else (case requests_a (req_ids inputs ! i) of
                      None \<Rightarrow> 0
                    | Some _ \<Rightarrow>
                        int (sum_list (map (length \<circ> fst) (hist_a (req_ids inputs ! i))))))
             + int (ids_added_before inputs (req_ids inputs ! i) (Suc i)) \<and>
           (\<exists>st. requests_b (req_ids inputs ! i) = Some st \<and>
              int (length (token_ids st)) - int (num_prompt_tokens st) =
                num_output_token_ids out ! i
                  + int (ids_added_before inputs (req_ids inputs ! i) (length (req_ids inputs)))
                  - int (ids_added_before inputs (req_ids inputs ! i) (Suc i)) \<and>
              ((\<forall>j. i < j \<and> j < length (req_ids inputs) \<longrightarrow>
                     req_ids inputs ! j \<noteq> req_ids inputs ! i) \<longrightarrow>
                 int (length (token_ids st)) - int (num_prompt_tokens st) =
                   num_output_token_ids out ! i))"
proof (intro allI impI)
  fix i
  assume i: "i < length (req_ids inputs)"
  let ?n = "length (req_ids inputs)"
  let ?rid = "req_ids inputs ! i"
  have inv: "\<forall>r st. requests_a r = Some st \<longrightarrow>
             int (length (token_ids st)) - int (num_prompt_tokens st) =
             int (sum_list (map (length \<circ> fst) (hist_a r)))"
    using assms(1,2) by (rule apply_operations_count)
  from process_batch_result [OF assms(3)] obtain requests_c texts nums where
    fr: "free_loop requests_a (free_req_ids inputs) = Inr requests_c" and
    loop: "index_loop tok inputs (requests_c, [], []) [0 ..< ?n] = Inr (requests_b, texts, nums)"
    and out: "out = \<lparr>out_req_ids = req_ids inputs, detokenized_texts = texts,
                  num_output_token_ids = nums\<rparr>"
    by blast
  have base: "output_count requests_c ?rid =
     (if ?rid \<in> set (free_req_ids inputs) then 0
      else (case requests_a ?rid of
              None \<Rightarrow> 0
            | Some _ \<Rightarrow> int (sum_list (map (length \<circ> fst) (hist_a ?rid)))))"
    using output_count_after_evictions [OF fr] output_count_history [OF inv] by simp
  from index_loop_count [OF loop] have
    fin: "output_count requests_b ?rid =
            output_count requests_c ?rid + int (ids_added_before inputs ?rid ?n)" and
    nums: "nums = map (\<lambda>j. output_count requests_c (req_ids inputs ! j)
                         + int (ids_added_before inputs (req_ids inputs ! j) (Suc j)))
                  [0 ..< ?n]"
    by auto
  from nums i have entry:
    "nums ! i = output_count requests_c ?rid + int (ids_added_before inputs ?rid (Suc i))"
    by simp
  from index_loop_live [OF loop] i have "requests_b ?rid \<noteq> None"
    by simp
  then obtain st where st: "requests_b ?rid = Some st"
    by blast
  with fin have cnt: "int (length (token_ids st)) - int (num_prompt_tokens st) =
      output_count requests_c ?rid + int (ids_added_before inputs ?rid ?n)"
    by (simp add: output_count_def)
  have last: "int (length (token_ids st)) - int (num_prompt_tokens st) = nums ! i"
    if "\<forall>j. i < j \<and> j < ?n \<longrightarrow> req_ids inputs ! j \<noteq> ?rid"
  proof -
    from that have "\<forall>j. Suc i \<le> j \<and> j < ?n \<longrightarrow> req_ids inputs ! j \<noteq> ?rid" by auto
    with i have "ids_added_before inputs ?rid ?n = ids_added_before inputs ?rid (Suc i)"
      by (intro ids_added_before_no_later) auto
    with cnt entry show ?thesis by simp
  qed
  from entry base cnt st last out
  show "num_output_token_ids out ! i =
             (if ?rid \<in> set (free_req_ids inputs) then 0
              else (case requests_a ?rid of
                      None \<Rightarrow> 0
                    | Some _ \<Rightarrow> int (sum_list (map (length \<circ> fst) (hist_a ?rid)))))
             + int (ids_added_before inputs ?rid (Suc i)) \<and>
           (\<exists>st. requests_b ?rid = Some st \<and>
              int (length (token_ids st)) - int (num_prompt_tokens st) =
                num_output_token_ids out ! i
                  + int (ids_added_before inputs ?rid ?n)
                  - int (ids_added_before inputs ?rid (Suc i)) \<and>
              ((\<forall>j. i < j \<and> j < ?n \<longrightarrow> req_ids inputs ! j \<noteq> ?rid) \<longrightarrow>
                 int (length (token_ids st)) - int (num_prompt_tokens st) =
                   num_output_token_ids out ! i))"
    by simp
qed

lemma inputs8_result:
  "process_batch fake_tokenizer Map.empty inputs8 = Inr ([''r2'' \<mapsto> state8], outputs8)"
  by (simp add: process_batch_def inputs8_def state8_def outputs8_def index_step_def
        getitem_def register_if_new_def detokenize_def add_request_def vocab_def
        fake_tokenizer_def Let_def upt_conv_Cons)

theorem num_output_token_ids_counts_ids_added_so_far_witness:
  "apply_operations fake_tokenizer (Map.empty, \<lambda>_. []) trace1 =
     Inr ([''r1'' \<mapsto> state1], history1) \<and>
   process_batch fake_tokenizer [''r1'' \<mapsto> state1] inputs2 = Inr (registry2, outputs2) \<and>
   (1 :: nat) < length (req_ids inputs2) \<and>
   req_ids inputs2 ! 1 = ''r1'' \<and>
   num_output_token_ids outputs2 ! 1 =
     int (sum_list (map (length \<circ> fst) (history1 ''r1'')))
       + int (ids_added_before inputs2 ''r1'' 2) \<and>
   num_output_token_ids outputs2 ! 1 = 4 \<and>
   sum_list (map (length \<circ> fst) (history1 ''r1'')) = 3 \<and>
   ids_added_before inputs2 ''r1'' 2 = 1"
proof -
  have start: "\<forall>r st. (Map.empty :: registry) r = Some st \<longrightarrow>
       int (length (token_ids st)) - int (num_prompt_tokens st) =
       int (sum_list (map (length \<circ> fst) (((\<lambda>_. []) :: history) r)))"
    by simp
  have idx: "(1 :: nat) < length (req_ids inputs2)" "req_ids inputs2 ! 1 = ''r1''"
    by (simp_all add: inputs2_def)
  have nofree: "free_req_ids inputs2 = []"
    by (simp add: inputs2_def)
  have vals: "num_output_token_ids outputs2 ! 1 = 4"
    "sum_list (map (length \<circ> fst) (history1 ''r1'')) = 3"
    "ids_added_before inputs2 ''r1'' 2 = 1"
    by (simp_all add: outputs2_def history1_def ids_added_before_def inputs2_def
          upt_conv_Cons numeral_2_eq_2)
  have "num_output_token_ids outputs2 ! 1 =
     int (sum_list (map (length \<circ> fst) (history1 ''r1'')))
       + int (ids_added_before inputs2 ''r1'' 2)"
    using num_output_token_ids_counts_ids_added_so_far
            [OF start trace1_result inputs2_result, rule_format, of 1] idx nofree
    by (simp add: numeral_2_eq_2)
  with trace1_result inputs2_result idx vals show ?thesis by (intro conjI)
qed

text \<open>
  C3 as the spec states it fails in its second half: the entry reported for an index
  is not always the count at the time the response is assembled. In \<open>inputs8\<close> the
  request \<open>r2\<close> occurs at both indices; the entry of index 0 is 1, and the state of
  \<open>r2\<close> has 3 output tokens when the response is built.
\<close>

theorem count_at_response_assembly_counterexample:
  "process_batch fake_tokenizer Map.empty inputs8 = Inr ([''r2'' \<mapsto> state8], outputs8) \<and>
   req_ids inputs8 ! 0 = ''r2'' \<and>
   num_output_token_ids outputs8 ! 0 = 1 \<and>
   [''r2'' \<mapsto> state8] ''r2'' = Some state8 \<and>
   int (length (token_ids state8)) - int (num_prompt_tokens state8) = 3"
  using inputs8_result by (simp add: inputs8_def outputs8_def state8_def)

end
